theory Spec2Isabelle
  imports Main "HOL-Library.Signed_Division"
begin

section \<open>Keys on the logical ring (key.h)\<close>

text \<open>
  \<open>GenericKey<key_base, key_len>\<close> wraps a \<open>boost::multiprecision::uint256_t\<close>.
  The only instantiation of the repository is \<open>ChordKey = GenericKey<16, 32>\<close>, so the
  ring holds \<open>16 ^ 32\<close> keys. A key value is modelled as a \<open>nat\<close>; where the
  source converts a \<open>cpp_int\<close> into the 256-bit unsigned type, the reduction modulo
  \<open>2 ^ 256\<close> is written out.
\<close>

definition keys_in_ring :: nat where
  "keys_in_ring = 16 ^ 32"

definition uint256 :: "int \<Rightarrow> nat" where
  "uint256 x = nat (x mod 2 ^ 256)"

text \<open>\<open>GenericKey::InBetween(lower_bound, upper_bound, inclusive)\<close>, on the value of the key.\<close>

definition InBetween :: "nat \<Rightarrow> nat \<Rightarrow> nat \<Rightarrow> bool \<Rightarrow> bool" where
  "InBetween val lower_bound upper_bound inclusive =
     (if lower_bound = upper_bound then
        (if val = upper_bound then True else False)
      else
        (let mod_lower_bound = lower_bound mod keys_in_ring;
             mod_upper_bound = upper_bound mod keys_in_ring;
             mod_value = val mod keys_in_ring
         in if lower_bound < upper_bound then
              (if inclusive
               then mod_lower_bound \<le> mod_value \<and> mod_value \<le> upper_bound
               else mod_lower_bound < mod_value \<and> mod_value < upper_bound)
            else
              \<not> (if inclusive
                 then mod_upper_bound < mod_value \<and> mod_value < mod_lower_bound
                 else mod_upper_bound \<le> mod_value \<and> mod_value \<le> mod_lower_bound)))"

text \<open>\<open>operator + (const KeyType &, const KeyType &)\<close>: the sum of the two 256-bit
  values, reduced by the number of keys in the ring.\<close>

definition key_plus :: "nat \<Rightarrow> nat \<Rightarrow> nat" where
  "key_plus key1 key2 = ((key1 + key2) mod 2 ^ 256) mod keys_in_ring"

text \<open>\<open>operator - (const KeyType &, const KeyType &)\<close>: the difference is taken on
  signed \<open>cpp_int\<close>s; a difference that is not strictly positive has the ring size
  added to it.\<close>

definition key_minus :: "nat \<Rightarrow> nat \<Rightarrow> nat" where
  "key_minus key1 key2 =
     (let diff = int key1 - int key2
      in if diff > 0 then uint256 diff else uint256 (int keys_in_ring + diff))"

text \<open>The templated \<open>operator + (const KeyType &, T number)\<close> and
  \<open>operator - (const KeyType &, T number)\<close>, used as \<open>id_ + 1\<close> and \<open>key - 1\<close>:
  here the arithmetic is done on the 256-bit unsigned value before anything else.\<close>

definition key_plus_num :: "nat \<Rightarrow> int \<Rightarrow> nat" where
  "key_plus_num key number = uint256 (int key + number) mod keys_in_ring"

definition key_minus_num :: "nat \<Rightarrow> int \<Rightarrow> nat" where
  "key_minus_num key number =
     (let diff = int (uint256 (int key - number))
      in if diff > 0 then uint256 diff else uint256 (int keys_in_ring + diff))"

lemma keys_in_ring_gt: "2 < keys_in_ring"
  by (simp add: keys_in_ring_def)

lemma keys_in_ring_lt_uint256: "keys_in_ring < 2 ^ 256"
  by (simp add: keys_in_ring_def)

lemma uint256_small: "0 \<le> x \<Longrightarrow> x < 2 ^ 256 \<Longrightarrow> uint256 x = nat x"
  by (simp add: uint256_def)

lemma key_plus_reduced:
  assumes "a < keys_in_ring" "b < keys_in_ring"
  shows "key_plus a b = (a + b) mod keys_in_ring"
proof -
  have "a + b < 2 ^ 256"
    using assms by (simp add: keys_in_ring_def)
  then show ?thesis
    by (simp add: key_plus_def)
qed

lemma key_minus_distinct:
  assumes "a < keys_in_ring" "b < keys_in_ring" "a \<noteq> b"
  shows "key_minus a b = (a + keys_in_ring - b) mod keys_in_ring"
proof (cases "b < a")
  case True
  then have small: "a - b < keys_in_ring"
    and shape: "a + keys_in_ring - b = (a - b) + keys_in_ring"
    using assms by auto
  have rhs: "(a + keys_in_ring - b) mod keys_in_ring = a - b"
    unfolding shape using small by simp
  have "int a - int b < 2 ^ 256"
    using assms by (simp add: keys_in_ring_def)
  then have "uint256 (int a - int b) = a - b"
    using True by (simp add: uint256_small nat_diff_distrib')
  then show ?thesis
    using True rhs by (simp add: key_minus_def)
next
  case False
  then have lt: "a < b" using assms by simp
  then have "a + keys_in_ring - b < keys_in_ring" using assms by simp
  moreover have "int keys_in_ring + (int a - int b) < 2 ^ 256"
    using lt by (simp add: keys_in_ring_def)
  moreover have "0 \<le> int keys_in_ring + (int a - int b)"
    using assms by simp
  moreover have "nat (int keys_in_ring + (int a - int b)) = a + keys_in_ring - b"
    using assms lt by linarith
  ultimately show ?thesis
    using lt by (simp add: key_minus_def uint256_small)
qed

lemma key_plus_num_one:
  assumes "a < keys_in_ring"
  shows "key_plus_num a 1 = (if a = keys_in_ring - 1 then 0 else a + 1)"
proof -
  have "int a + 1 < 2 ^ 256"
    using assms by (simp add: keys_in_ring_def)
  then have "uint256 (int a + 1) = a + 1"
    by (simp add: uint256_small nat_add_distrib)
  then show ?thesis
    using assms by (auto simp: key_plus_num_def)
qed

subsection \<open>Clockwise betweenness\<close>

text \<open>
  Claim C3. For values \<open>k\<close>, \<open>lo\<close>, \<open>hi\<close> already reduced modulo the ring size,
  \<open>InBetween\<close> follows the case analysis: for \<open>lo = hi\<close> it holds exactly when
  \<open>k = hi\<close>, whatever the flag; for \<open>lo < hi\<close> it is the ordinary interval, closed when
  inclusive and open when exclusive; for \<open>lo > hi\<close> it is the complement of the
  interval between \<open>hi\<close> and \<open>lo\<close>, that is the wrap segment, which contains its two
  endpoints \<open>lo\<close> and \<open>hi\<close> exactly when the flag is inclusive. In particular the key
  \<open>0\<close> lies between \<open>N - 1\<close> and \<open>1\<close>.
\<close>

theorem InBetween_cases:
  assumes "k < keys_in_ring" "lo < keys_in_ring" "hi < keys_in_ring"
  shows "(lo = hi \<longrightarrow> InBetween k lo hi inclusive = (k = hi))
       \<and> (lo < hi \<longrightarrow> InBetween k lo hi inclusive =
            (if inclusive then lo \<le> k \<and> k \<le> hi else lo < k \<and> k < hi))
       \<and> (hi < lo \<longrightarrow> InBetween k lo hi inclusive =
            (if inclusive then \<not> (hi < k \<and> k < lo) else \<not> (hi \<le> k \<and> k \<le> lo)))
       \<and> (hi < lo \<longrightarrow> InBetween k lo hi inclusive =
            (if inclusive then lo \<le> k \<or> k \<le> hi else lo < k \<or> k < hi))
       \<and> InBetween 0 (keys_in_ring - 1) 1 True"
proof -
  have wrap: "InBetween 0 (keys_in_ring - 1) 1 True"
    using keys_in_ring_gt by (simp add: InBetween_def Let_def)
  show ?thesis
    using assms wrap by (auto simp: InBetween_def Let_def)
qed

theorem InBetween_cases_witness:
  "InBetween 5 3 3 True = False
   \<and> InBetween 3 3 3 False = True
   \<and> InBetween 4 3 9 True = True
   \<and> InBetween 3 3 9 False = False
   \<and> InBetween 9 9 3 True = True
   \<and> InBetween 9 9 3 False = False
   \<and> InBetween 5 9 3 True = False
   \<and> InBetween 0 (keys_in_ring - 1) 1 True"
proof -
  have small: "(3::nat) < keys_in_ring" "(4::nat) < keys_in_ring"
    "(5::nat) < keys_in_ring" "(9::nat) < keys_in_ring"
    by (simp_all add: keys_in_ring_def)
  show ?thesis
    using InBetween_cases [OF small(3) small(1) small(1), of True]
      InBetween_cases [OF small(1) small(1) small(1), of False]
      InBetween_cases [OF small(2) small(1) small(4), of True]
      InBetween_cases [OF small(1) small(1) small(4), of False]
      InBetween_cases [OF small(4) small(4) small(1), of True]
      InBetween_cases [OF small(4) small(4) small(1), of False]
      InBetween_cases [OF small(3) small(4) small(1), of True]
    by simp
qed

subsection \<open>Modular addition and subtraction\<close>

text \<open>
  Claim C8. Key arithmetic is meant to be modular, with every result in \<open>[0, N)\<close> and
  \<open>a - a = 0\<close>. Addition is (\<open>key_plus_reduced\<close>), and so is subtraction of two
  different keys (\<open>key_minus_distinct\<close>); but subtracting a key from itself takes the
  branch for a non-positive difference and returns the ring size \<open>N\<close> itself, a value
  outside the ring.
\<close>

theorem key_minus_self_leaves_ring:
  "key_minus 5 5 = keys_in_ring \<and> \<not> key_minus 5 5 < keys_in_ring \<and> key_minus 5 5 \<noteq> 0"
  by (simp add: key_minus_def uint256_def keys_in_ring_def)

section \<open>Errors\<close>

text \<open>
  Every \<open>throw\<close> of the modelled code is a value of this type, named after the message
  of the \<open>std::runtime_error\<close> (or the standard exception) it stands for. \<open>Undefined\<close>
  marks a step whose behaviour C++ leaves undefined, such as \<open>back()\<close> on an empty
  vector.
\<close>

datatype error =
    CorruptedJson
  | KeyAlreadyExists
  | KeyDoesNotExist
  | ChordKeyNotFound
  | LookupFailed
  | PeerDown
  | FailedRequest
  | PeerHasNoValue
  | InsufficientSuccs
  | TooFewResponded
  | IncorrectParameters
  | NotInvertible
  | FragsRequired
  | OutOfRange
  | Undefined

section \<open>Remote peers and the finger table (remote_peer.h, finger_table.h)\<close>

text \<open>\<open>RemotePeer\<close> is a plain descriptor: identifier, smallest owned key, address
  and port.\<close>

record RemotePeer =
  rp_id :: nat
  rp_min_key :: nat
  rp_ip_addr :: string
  rp_port :: nat

record Finger =
  lower_bound :: nat
  upper_bound :: nat
  successor :: RemotePeer

record FingerTable =
  table :: "Finger list"
  ft_starting_key :: nat
  num_entries :: nat

text \<open>\<open>FingerTable::AdjustFingers(new_peer)\<close>: the loop over \<open>table_\<close> calls
  \<open>InBetween\<close> with two arguments, so the flag takes its default, \<open>true\<close>.\<close>

definition AdjustFingers :: "FingerTable \<Rightarrow> RemotePeer \<Rightarrow> FingerTable" where
  "AdjustFingers ft new_peer =
     ft\<lparr>table :=
       map (\<lambda>finger.
              if InBetween (lower_bound finger) (rp_min_key new_peer) (rp_id new_peer) True
              then finger\<lparr>successor := new_peer\<rparr>
              else finger)
           (table ft)\<rparr>"

text \<open>\<open>FingerTable::ReplaceDeadPeer\<close> and \<open>EditNthFinger\<close> (\<open>table_.at(n)\<close> throws
  when \<open>n\<close> is out of range).\<close>

definition ReplaceDeadPeer :: "FingerTable \<Rightarrow> RemotePeer \<Rightarrow> RemotePeer \<Rightarrow> FingerTable" where
  "ReplaceDeadPeer ft dead_peer replacement =
     ft\<lparr>table :=
       map (\<lambda>finger.
              if rp_id (successor finger) = rp_id dead_peer
              then finger\<lparr>successor := replacement\<rparr>
              else finger)
           (table ft)\<rparr>"

definition EditNthFinger :: "FingerTable \<Rightarrow> nat \<Rightarrow> RemotePeer \<Rightarrow> FingerTable option" where
  "EditNthFinger ft n succ =
     (if n < length (table ft)
      then Some (ft\<lparr>table := (table ft)[n := (table ft ! n)\<lparr>successor := succ\<rparr>]\<rparr>)
      else None)"

subsection \<open>Which fingers a new peer takes over\<close>

text \<open>
  Claim C7 states that \<open>AdjustFingers(p)\<close> replaces the successor of exactly the fingers
  whose lower bound lies in \<open>(p.min_key, p.id]\<close>, exclusive at \<open>p.min_key\<close>. The code
  tests the closed interval: a finger whose lower bound equals \<open>p.min_key\<close> is
  replaced too. Here the peer \<open>p\<close> owns \<open>[3, 9]\<close>, and the finger that starts at \<open>3\<close>
  and pointed to another peer points to \<open>p\<close> afterwards.
\<close>

theorem AdjustFingers_open_at_min_key_counterexample:
  "\<not> (let p = \<lparr>rp_id = 9, rp_min_key = 3, rp_ip_addr = ''127.0.0.1'', rp_port = 7300\<rparr>;
          q = \<lparr>rp_id = 20, rp_min_key = 10, rp_ip_addr = ''127.0.0.1'', rp_port = 7302\<rparr>;
          ft = \<lparr>table = [\<lparr>lower_bound = 3, upper_bound = 4, successor = q\<rparr>],
                ft_starting_key = 2, num_entries = 128\<rparr>
      in successor (table (AdjustFingers ft p) ! 0) =
           (if rp_min_key p < lower_bound (table ft ! 0) \<and> lower_bound (table ft ! 0) \<le> rp_id p
            then p else successor (table ft ! 0)))"
  by (simp add: AdjustFingers_def InBetween_def Let_def keys_in_ring_def)

text \<open>
  Claim C7, amended. \<open>AdjustFingers(p)\<close> replaces the successor of exactly those
  fingers whose lower bound lies in the clockwise interval \<open>[p.min_key, p.id]\<close>,
  inclusive at both ends (the single point \<open>p.id\<close> when \<open>p.min_key = p.id\<close>), with
  \<open>p\<close>, and leaves every other finger, and the bounds of every finger, unchanged.
\<close>

theorem AdjustFingers_closed_interval:
  assumes "i < length (table ft)"
    and "lower_bound (table ft ! i) < keys_in_ring"
    and "rp_min_key p < keys_in_ring" and "rp_id p < keys_in_ring"
  shows "length (table (AdjustFingers ft p)) = length (table ft)
       \<and> table (AdjustFingers ft p) ! i =
           (if (if rp_min_key p = rp_id p then lower_bound (table ft ! i) = rp_id p
                else if rp_min_key p < rp_id p
                  then rp_min_key p \<le> lower_bound (table ft ! i)
                     \<and> lower_bound (table ft ! i) \<le> rp_id p
                  else rp_min_key p \<le> lower_bound (table ft ! i)
                     \<or> lower_bound (table ft ! i) \<le> rp_id p)
            then (table ft ! i)\<lparr>successor := p\<rparr>
            else table ft ! i)
       \<and> ft_starting_key (AdjustFingers ft p) = ft_starting_key ft
       \<and> num_entries (AdjustFingers ft p) = num_entries ft"
  using assms by (auto simp: AdjustFingers_def InBetween_def Let_def)

theorem AdjustFingers_closed_interval_witness:
  "(let p = \<lparr>rp_id = 9, rp_min_key = 3, rp_ip_addr = ''127.0.0.1'', rp_port = 7300\<rparr>;
        q = \<lparr>rp_id = 20, rp_min_key = 10, rp_ip_addr = ''127.0.0.1'', rp_port = 7302\<rparr>;
        ft = \<lparr>table = [\<lparr>lower_bound = 3, upper_bound = 4, successor = q\<rparr>,
                       \<lparr>lower_bound = 10, upper_bound = 17, successor = q\<rparr>],
              ft_starting_key = 2, num_entries = 128\<rparr>
    in table (AdjustFingers ft p) ! 0 = \<lparr>lower_bound = 3, upper_bound = 4, successor = p\<rparr>
     \<and> table (AdjustFingers ft p) ! 1 = \<lparr>lower_bound = 10, upper_bound = 17, successor = q\<rparr>
     \<and> length (table (AdjustFingers ft p)) = 2)"
proof -
  let ?p = "\<lparr>rp_id = 9, rp_min_key = 3, rp_ip_addr = ''127.0.0.1'', rp_port = 7300\<rparr>"
  let ?q = "\<lparr>rp_id = 20, rp_min_key = 10, rp_ip_addr = ''127.0.0.1'', rp_port = 7302\<rparr>"
  let ?ft = "\<lparr>table = [\<lparr>lower_bound = 3, upper_bound = 4, successor = ?q\<rparr>,
                       \<lparr>lower_bound = 10, upper_bound = 17, successor = ?q\<rparr>],
              ft_starting_key = 2, num_entries = 128\<rparr>"
  have a: "0 < length (table ?ft)" "1 < length (table ?ft)" by simp_all
  have b: "lower_bound (table ?ft ! 0) < keys_in_ring" "lower_bound (table ?ft ! 1) < keys_in_ring"
    "rp_min_key ?p < keys_in_ring" "rp_id ?p < keys_in_ring"
    by (simp_all add: keys_in_ring_def)
  show ?thesis
    using AdjustFingers_closed_interval [OF a(1) b(1) b(3) b(4)]
      AdjustFingers_closed_interval [OF a(2) b(2) b(3) b(4)]
    by (simp add: Let_def)
qed

section \<open>Clockwise distance on the ring\<close>

text \<open>
  A reference notion for the statements below, not part of the repository: the number of
  clockwise steps from \<open>a\<close> to \<open>b\<close>. The closed clockwise arc from \<open>lo\<close> to \<open>hi\<close>
  is the set of keys no further from \<open>lo\<close> than \<open>hi\<close> is, and inclusive
  \<open>InBetween\<close> decides membership in it (\<open>InBetween_arc\<close>).
\<close>

definition clockwise_dist :: "nat \<Rightarrow> nat \<Rightarrow> nat" where
  "clockwise_dist a b = (b + keys_in_ring - a) mod keys_in_ring"

lemma clockwise_dist_eq:
  assumes "a < keys_in_ring" "b < keys_in_ring"
  shows "clockwise_dist a b = (if a \<le> b then b - a else b + keys_in_ring - a)"
proof (cases "a \<le> b")
  case True
  then have shape: "b + keys_in_ring - a = (b - a) + keys_in_ring" by simp
  have small: "b - a < keys_in_ring" using assms by simp
  have "(b + keys_in_ring - a) mod keys_in_ring = ((b - a) + keys_in_ring) mod keys_in_ring"
    by (simp only: shape)
  also have "\<dots> = (b - a) mod keys_in_ring"
    by (rule mod_add_self2)
  also have "\<dots> = b - a"
    using small by (rule mod_less)
  finally show ?thesis
    using True by (simp only: clockwise_dist_def if_True)
next
  case False
  then have "b + keys_in_ring - a < keys_in_ring" using assms by simp
  then show ?thesis unfolding clockwise_dist_def using False by simp
qed

lemma InBetween_arc:
  assumes "k < keys_in_ring" "lo < keys_in_ring" "hi < keys_in_ring"
  shows "InBetween k lo hi True = (clockwise_dist lo k \<le> clockwise_dist lo hi)"
  using assms by (auto simp: clockwise_dist_eq InBetween_def Let_def)

lemma clockwise_dist_shift:
  assumes "s < keys_in_ring" "a < keys_in_ring" "b < keys_in_ring"
    and "clockwise_dist s a \<le> clockwise_dist s b"
  shows "clockwise_dist a b = clockwise_dist s b - clockwise_dist s a"
  using assms by (auto simp: clockwise_dist_eq split: if_splits)

lemma clockwise_dist_inj:
  assumes "s < keys_in_ring" "a < keys_in_ring" "b < keys_in_ring"
    and "clockwise_dist s a = clockwise_dist s b"
  shows "a = b"
  using assms by (auto simp: clockwise_dist_eq split: if_splits)

lemma clockwise_dist_lt:
  assumes "a < keys_in_ring" "b < keys_in_ring"
  shows "clockwise_dist a b < keys_in_ring"
  using assms by (auto simp: clockwise_dist_eq split: if_splits)

section \<open>The successor list (remote_peer_list.h, remote_peer_list.cpp)\<close>

text \<open>
  \<open>RemotePeerList\<close> is a bounded vector of peers
  with a starting key; \<open>max_entries_\<close> is an \<open>int\<close> that the source compares with
  \<open>peers_.size()\<close>, an \<open>unsigned long\<close>, so it is converted to 64 bits unsigned first.
\<close>


record RemotePeerList =
  max_entries :: int
  starting_key :: nat
  peers :: "RemotePeer list"

definition ulong :: "int \<Rightarrow> nat" where
  "ulong x = nat (x mod 2 ^ 64)"

datatype scan = Duplicate | Position nat | NoPosition

fun scan_peers :: "nat \<Rightarrow> nat \<Rightarrow> RemotePeer list \<Rightarrow> nat \<Rightarrow> scan" where
  "scan_peers new_id previous_key [] i = NoPosition"
| "scan_peers new_id previous_key (it # rest) i =
     (if new_id = rp_id it then Duplicate
      else if InBetween new_id previous_key (rp_id it) True then Position i
      else scan_peers new_id (rp_id it) rest (Suc i))"

definition RemotePeerList_Insert :: "RemotePeerList \<Rightarrow> RemotePeer \<Rightarrow> error + (bool \<times> RemotePeerList)" where
  "RemotePeerList_Insert l new_peer =
     (if rp_port new_peer = 0 then Inl CorruptedJson
      else if peers l = [] then Inr (True, l\<lparr>peers := [new_peer]\<rparr>)
      else
        (case scan_peers (rp_id new_peer) (starting_key l) (peers l) 0 of
           Duplicate \<Rightarrow> Inr (False, l)
         | Position i \<Rightarrow>
             (let inserted = take i (peers l) @ new_peer # drop i (peers l)
              in Inr (True, l\<lparr>peers := (if length inserted > ulong (max_entries l)
                                         then butlast inserted else inserted)\<rparr>))
         | NoPosition \<Rightarrow>
             (if length (peers l) < ulong (max_entries l)
              then Inr (True, l\<lparr>peers := peers l @ [new_peer]\<rparr>)
              else Inr (False, l))))"

fun delete_id :: "nat \<Rightarrow> RemotePeer list \<Rightarrow> RemotePeer list" where
  "delete_id id_to_delete [] = []"
| "delete_id id_to_delete (it # rest) =
     (if rp_id it = id_to_delete then rest else it # delete_id id_to_delete rest)"

definition RemotePeerList_Delete :: "RemotePeerList \<Rightarrow> nat \<Rightarrow> RemotePeerList" where
  "RemotePeerList_Delete l id_to_delete = l\<lparr>peers := delete_id id_to_delete (peers l)\<rparr>"

definition RemotePeerList_Erase :: "RemotePeerList \<Rightarrow> RemotePeerList" where
  "RemotePeerList_Erase l = l\<lparr>peers := []\<rparr>"

text \<open>
  \<open>Populate\<close> overwrites the entries with the vector it is given, without looking at
  them.
\<close>

definition RemotePeerList_Populate :: "RemotePeerList \<Rightarrow> RemotePeer list \<Rightarrow> RemotePeerList" where
  "RemotePeerList_Populate l new_peers = l\<lparr>peers := new_peers\<rparr>"

definition offset :: "RemotePeerList \<Rightarrow> RemotePeer \<Rightarrow> nat" where
  "offset l p = clockwise_dist (starting_key l) (rp_id p)"

definition list_inv :: "RemotePeerList \<Rightarrow> bool" where
  "list_inv l =
     (length (peers l) \<le> ulong (max_entries l)
      \<and> starting_key l < keys_in_ring
      \<and> list_all (\<lambda>p. rp_id p < keys_in_ring) (peers l)
      \<and> distinct (map rp_id (peers l))
      \<and> sorted_wrt (<) (map (offset l) (peers l)))"

lemma scan_peers_sorted:
  assumes "s < keys_in_ring" "k < keys_in_ring" "prev < keys_in_ring"
    and "list_all (\<lambda>p. rp_id p < keys_in_ring) ps"
    and "sorted_wrt (<) (map (\<lambda>p. clockwise_dist s (rp_id p)) ps)"
    and "clockwise_dist s prev \<le> clockwise_dist s k"
    and "list_all (\<lambda>p. clockwise_dist s prev \<le> clockwise_dist s (rp_id p)) ps"
  shows "scan_peers k prev ps i =
     (if k \<in> rp_id ` set ps then Duplicate
      else if \<exists>q \<in> set ps. clockwise_dist s k < clockwise_dist s (rp_id q)
        then Position (i + length (takeWhile (\<lambda>q. clockwise_dist s (rp_id q) < clockwise_dist s k) ps))
        else NoPosition)"
  using assms
proof (induction ps arbitrary: prev i)
  case Nil
  then show ?case by simp
next
  case (Cons it rest)
  let ?d = "clockwise_dist s"
  have it: "rp_id it < keys_in_ring" using Cons.prems by simp
  have le: "?d prev \<le> ?d (rp_id it)" using Cons.prems by simp
  have later: "\<forall>q \<in> set rest. ?d (rp_id it) < ?d (rp_id q)"
    using Cons.prems by simp
  show ?case
  proof (cases "k = rp_id it")
    case True
    then show ?thesis by simp
  next
    case False
    then have ne: "?d k \<noteq> ?d (rp_id it)"
      using clockwise_dist_inj [OF Cons.prems(1) Cons.prems(2) it] by blast
    have between: "InBetween k prev (rp_id it) True = (?d k < ?d (rp_id it))"
    proof -
      have "InBetween k prev (rp_id it) True = (clockwise_dist prev k \<le> clockwise_dist prev (rp_id it))"
        using InBetween_arc [OF Cons.prems(2) Cons.prems(3) it] .
      also have "clockwise_dist prev k = ?d k - ?d prev"
        using clockwise_dist_shift [OF Cons.prems(1) Cons.prems(3) Cons.prems(2)] Cons.prems(6) by simp
      also have "clockwise_dist prev (rp_id it) = ?d (rp_id it) - ?d prev"
        using clockwise_dist_shift [OF Cons.prems(1) Cons.prems(3) it] le by simp
      finally show ?thesis
        using ne le Cons.prems(6) by auto
    qed
    show ?thesis
    proof (cases "?d k < ?d (rp_id it)")
      case True
      then have "k \<notin> rp_id ` set rest"
        using later by auto
      then show ?thesis
        using True False between by auto
    next
      case gt: False
      then have lt: "?d (rp_id it) < ?d k" using ne by simp
      have IH: "scan_peers k (rp_id it) rest (Suc i) =
        (if k \<in> rp_id ` set rest then Duplicate
         else if \<exists>q \<in> set rest. ?d k < ?d (rp_id q)
           then Position (Suc i + length (takeWhile (\<lambda>q. ?d (rp_id q) < ?d k) rest))
           else NoPosition)"
      proof (rule Cons.IH [OF Cons.prems(1) Cons.prems(2) it])
        show "list_all (\<lambda>p. rp_id p < keys_in_ring) rest" using Cons.prems by simp
        show "sorted_wrt (<) (map (\<lambda>p. ?d (rp_id p)) rest)" using Cons.prems by simp
        show "?d (rp_id it) \<le> ?d k" using lt by simp
        show "list_all (\<lambda>p. ?d (rp_id it) \<le> ?d (rp_id p)) rest"
          using later by (auto simp: list_all_iff intro: less_imp_le)
      qed
      show ?thesis
        using False gt lt between IH by auto
    qed
  qed
qed


definition positional_insert :: "RemotePeerList \<Rightarrow> RemotePeer \<Rightarrow> bool \<times> RemotePeerList" where
  "positional_insert l p =
     (if rp_id p \<in> rp_id ` set (peers l) then (False, l)
      else
        (let before = takeWhile (\<lambda>q. offset l q < offset l p) (peers l);
             after = dropWhile (\<lambda>q. offset l q < offset l p) (peers l)
         in (length before < ulong (max_entries l),
             l\<lparr>peers := take (ulong (max_entries l)) (before @ p # after)\<rparr>)))"

lemma sorted_insert_pos:
  fixes f :: "'a \<Rightarrow> nat"
  assumes "sorted_wrt (<) (map f xs)" "f p \<notin> f ` set xs"
  shows "sorted_wrt (<) (map f (takeWhile (\<lambda>q. f q < f p) xs @ p # dropWhile (\<lambda>q. f q < f p) xs))"
  using assms
proof (induction xs)
  case Nil
  then show ?case by simp
next
  case (Cons x xs)
  show ?case
  proof (cases "f x < f p")
    case True
    have "\<forall>q \<in> set (takeWhile (\<lambda>q. f q < f p) xs @ p # dropWhile (\<lambda>q. f q < f p) xs). f x < f q"
      using Cons.prems True by (auto dest: set_takeWhileD set_dropWhileD)
    then show ?thesis
      using Cons True by auto
  next
    case False
    then have "f p < f x" using Cons.prems by (simp add: less_le not_less)
    then show ?thesis
      using Cons.prems False by (auto simp: less_trans)
  qed
qed

lemma takeWhile_short:
  assumes "\<exists>q \<in> set xs. \<not> P q"
  shows "length (takeWhile P xs) < length xs"
  using assms by (induction xs) auto

lemma distinct_of_sorted_offsets:
  fixes f :: "nat \<Rightarrow> nat"
  assumes "sorted_wrt (<) (map (\<lambda>p. f (rp_id p)) ps)"
  shows "distinct (map rp_id ps)"
  using assms by (induction ps) auto


lemma clockwise_dist_self: "a < keys_in_ring \<Longrightarrow> clockwise_dist a a = 0"
  by (simp add: clockwise_dist_eq)

lemma RemotePeerList_Insert_refines:
  assumes inv: "list_inv l" and cap: "0 < ulong (max_entries l)"
    and pid: "rp_id p < keys_in_ring" and port: "rp_port p \<noteq> 0"
  shows "RemotePeerList_Insert l p = Inr (positional_insert l p)"
proof -
  let ?s = "starting_key l"
  let ?K = "ulong (max_entries l)"
  let ?P = "\<lambda>q. offset l q < offset l p"
  let ?before = "takeWhile ?P (peers l)"
  let ?after = "dropWhile ?P (peers l)"
  have s: "?s < keys_in_ring" and len: "length (peers l) \<le> ?K"
    and ids: "list_all (\<lambda>p. rp_id p < keys_in_ring) (peers l)"
    and srt: "sorted_wrt (<) (map (\<lambda>p. clockwise_dist ?s (rp_id p)) (peers l))"
    using inv by (simp_all add: list_inv_def offset_def [abs_def])
  have scan: "scan_peers (rp_id p) ?s (peers l) 0 =
     (if rp_id p \<in> rp_id ` set (peers l) then Duplicate
      else if \<exists>q \<in> set (peers l). offset l p < offset l q
        then Position (length ?before)
        else NoPosition)"
    using scan_peers_sorted [OF s pid s ids srt, of 0]
    by (simp add: clockwise_dist_self [OF s] list_all_iff offset_def)
  show ?thesis
  proof (cases "peers l = []")
    case True
    then show ?thesis
      using port cap by (simp add: RemotePeerList_Insert_def positional_insert_def)
  next
    case nonempty: False
    show ?thesis
    proof (cases "rp_id p \<in> rp_id ` set (peers l)")
      case True
      then show ?thesis
        using port nonempty scan by (simp add: RemotePeerList_Insert_def positional_insert_def)
    next
      case fresh: False
      show ?thesis
      proof (cases "\<exists>q \<in> set (peers l). offset l p < offset l q")
        case True
        then obtain q where "q \<in> set (peers l)" "offset l p < offset l q" by blast
        then have "\<exists>q \<in> set (peers l). \<not> ?P q"
          using less_asym by blast
        then have short: "length ?before < length (peers l)"
          by (rule takeWhile_short)
        have tk: "take (length ?before) (peers l) = ?before"
          by (rule takeWhile_eq_take [symmetric])
        have dr: "drop (length ?before) (peers l) = ?after"
          by (rule dropWhile_eq_drop [symmetric])
        let ?ins = "?before @ p # ?after"
        have total: "length ?ins = Suc (length (peers l))"
        proof -
          have "length ?before + length ?after = length (peers l)"
            by (metis length_append takeWhile_dropWhile_id)
          then show ?thesis by simp
        qed
        have cut: "(if length ?ins > ?K then butlast ?ins else ?ins) = take ?K ?ins"
        proof (cases "length ?ins > ?K")
          case True
          then have "length ?ins = Suc ?K" using total len by simp
          then have "butlast ?ins = take ?K ?ins"
            by (simp add: butlast_conv_take)
          then show ?thesis using True by simp
        next
          case False
          then show ?thesis by simp
        qed
        have "RemotePeerList_Insert l p = Inr (True, l\<lparr>peers := take ?K ?ins\<rparr>)"
          using port nonempty scan fresh True tk dr cut
          by (simp add: RemotePeerList_Insert_def Let_def)
        moreover have "length ?before < ?K" using short len by simp
        ultimately show ?thesis
          using fresh by (simp add: positional_insert_def Let_def)
      next
        case False
        have all: "\<forall>q \<in> set (peers l). ?P q"
        proof
          fix q assume q: "q \<in> set (peers l)"
          then have qid: "rp_id q < keys_in_ring" using ids by (simp add: list_all_iff)
          have "rp_id q \<noteq> rp_id p" using fresh q by (metis imageI)
          then have "offset l q \<noteq> offset l p"
            using clockwise_dist_inj [OF s qid pid] by (auto simp: offset_def)
          moreover have "\<not> offset l p < offset l q" using False q by blast
          ultimately show "?P q" by simp
        qed
        then have tw: "?before = peers l" and dw: "?after = []"
          by (simp_all add: takeWhile_eq_all_conv)
        have "RemotePeerList_Insert l p =
              (if length (peers l) < ?K then Inr (True, l\<lparr>peers := peers l @ [p]\<rparr>)
               else Inr (False, l))"
          using port nonempty scan fresh False
          by (simp add: RemotePeerList_Insert_def)
        moreover have "positional_insert l p =
              (length (peers l) < ?K, l\<lparr>peers := take ?K (peers l @ [p])\<rparr>)"
          unfolding positional_insert_def Let_def tw dw using fresh by simp
        ultimately show ?thesis
          using len by (cases "length (peers l) < ?K") auto
      qed
    qed
  qed
qed

lemma positional_insert_inv:
  assumes inv: "list_inv l" and pid: "rp_id p < keys_in_ring"
  shows "list_inv (snd (positional_insert l p))"
proof (cases "rp_id p \<in> rp_id ` set (peers l)")
  case True
  then show ?thesis using inv by (simp add: positional_insert_def)
next
  case fresh: False
  let ?s = "starting_key l"
  let ?K = "ulong (max_entries l)"
  let ?P = "\<lambda>q. offset l q < offset l p"
  let ?ins = "takeWhile ?P (peers l) @ p # dropWhile ?P (peers l)"
  let ?l' = "l\<lparr>peers := take ?K ?ins\<rparr>"
  have s: "?s < keys_in_ring"
    and ids: "list_all (\<lambda>p. rp_id p < keys_in_ring) (peers l)"
    and srt: "sorted_wrt (<) (map (offset l) (peers l))"
    using inv by (simp_all add: list_inv_def)
  have res: "snd (positional_insert l p) = ?l'"
    using fresh by (simp add: positional_insert_def Let_def)
  have off: "offset ?l' = offset l"
    by (simp add: offset_def fun_eq_iff)
  have "offset l p \<notin> offset l ` set (peers l)"
  proof
    assume "offset l p \<in> offset l ` set (peers l)"
    then obtain q where q: "q \<in> set (peers l)" "offset l p = offset l q" by auto
    then have "rp_id q < keys_in_ring" using ids by (simp add: list_all_iff)
    then have "rp_id p = rp_id q"
      using clockwise_dist_inj [OF s pid] q(2) by (simp add: offset_def)
    then show False using fresh q(1) by auto
  qed
  then have sorted_ins: "sorted_wrt (<) (map (offset l) ?ins)"
    using sorted_insert_pos [OF srt] by simp
  have "sorted_wrt (<) (take ?K (map (offset l) ?ins))"
    using sorted_ins by (rule sorted_wrt_take)
  then have sorted_cut: "sorted_wrt (<) (map (offset l) (take ?K ?ins))"
    by (simp only: take_map)
  then have "sorted_wrt (<) (map (\<lambda>p. clockwise_dist ?s (rp_id p)) (take ?K ?ins))"
    by (simp add: offset_def [abs_def])
  then have dist: "distinct (map rp_id (take ?K ?ins))"
    by (rule distinct_of_sorted_offsets)
  have "set ?ins \<subseteq> insert p (set (peers l))"
    by (auto dest: set_takeWhileD set_dropWhileD)
  then have "set (take ?K ?ins) \<subseteq> insert p (set (peers l))"
    using set_take_subset by fastforce
  then have all_ids: "list_all (\<lambda>p. rp_id p < keys_in_ring) (take ?K ?ins)"
    using ids pid by (auto simp: list_all_iff)
  show ?thesis
    unfolding res using s all_ids dist sorted_cut off
    by (simp add: list_inv_def)
qed

lemma delete_id_subset: "set (delete_id k ps) \<subseteq> set ps"
  by (induction ps) auto

lemma delete_id_length: "length (delete_id k ps) \<le> length ps"
  by (induction ps) auto

lemma delete_id_sorted:
  fixes f :: "RemotePeer \<Rightarrow> nat"
  assumes "sorted_wrt (<) (map f ps)"
  shows "sorted_wrt (<) (map f (delete_id k ps))"
  using assms
proof (induction ps)
  case Nil
  then show ?case by simp
next
  case (Cons it rest)
  then show ?case
    using delete_id_subset [of k rest] by auto
qed

lemma delete_id_distinct:
  assumes "distinct (map rp_id ps)"
  shows "distinct (map rp_id (delete_id k ps))"
  using assms
proof (induction ps)
  case Nil
  then show ?case by simp
next
  case (Cons it rest)
  then show ?case
    using delete_id_subset [of k rest] by auto
qed

lemma RemotePeerList_Delete_inv:
  assumes "list_inv l"
  shows "list_inv (RemotePeerList_Delete l k)"
proof -
  have off: "offset (RemotePeerList_Delete l k) = offset l"
    by (simp add: offset_def fun_eq_iff RemotePeerList_Delete_def)
  have "length (delete_id k (peers l)) \<le> ulong (max_entries l)"
    using assms delete_id_length [of k "peers l"] by (simp add: list_inv_def)
  moreover have "list_all (\<lambda>p. rp_id p < keys_in_ring) (delete_id k (peers l))"
    using assms delete_id_subset [of k "peers l"] by (auto simp: list_inv_def list_all_iff)
  ultimately show ?thesis
    using assms delete_id_sorted [of "offset l" "peers l" k] delete_id_distinct [of "peers l" k] off
    by (simp add: list_inv_def RemotePeerList_Delete_def)
qed

lemma RemotePeerList_Erase_inv:
  assumes "list_inv l"
  shows "list_inv (RemotePeerList_Erase l)"
  using assms by (simp add: list_inv_def RemotePeerList_Erase_def)

subsection \<open>The peer's own successor list\<close>

text \<open>
  \<open>AbstractChordPeer\<close> holds the state of a peer. Its constructor hashes
  \<open>ip_addr:port\<close> into the identifier (the SHA-1 generator is Boost's, so the hashed
  identifier is a parameter here) and builds the successor list as
  \<open>successors_(num_succs_, id_)\<close>: the starting key of the list is the peer's own
  identifier.
\<close>

definition RemotePeerList_new :: "int \<Rightarrow> nat \<Rightarrow> RemotePeerList" where
  "RemotePeerList_new max_entries' starting_key' =
     \<lparr>max_entries = max_entries', starting_key = starting_key', peers = []\<rparr>"

record AbstractChordPeer =
  cp_ip_addr :: string
  cp_port :: nat
  cp_id :: nat
  cp_min_key :: nat
  cp_finger_table :: FingerTable
  cp_num_succs :: int
  cp_successors :: RemotePeerList
  cp_predecessor :: "RemotePeer option"

definition AbstractChordPeer_new :: "string \<Rightarrow> nat \<Rightarrow> int \<Rightarrow> nat \<Rightarrow> AbstractChordPeer" where
  "AbstractChordPeer_new ip_addr port num_succs hashed_id =
     \<lparr>cp_ip_addr = ip_addr,
      cp_port = port,
      cp_id = hashed_id,
      cp_min_key = hashed_id,
      cp_finger_table = \<lparr>table = [], ft_starting_key = hashed_id, num_entries = 128\<rparr>,
      cp_num_succs = num_succs,
      cp_successors = RemotePeerList_new num_succs hashed_id,
      cp_predecessor = None\<rparr>"

subsection \<open>Order and capacity of the successor list\<close>

text \<open>
  \<open>Insert\<close> orders the entries by their clockwise distance from the starting key of the
  list. Relative to that key (\<open>list_inv\<close>), \<open>Insert\<close>, \<open>Delete\<close> and \<open>Erase\<close> keep the
  list at most \<open>max_entries_\<close> long, with pairwise distinct identifiers in strictly
  increasing clockwise order, and \<open>Insert\<close> of a well-formed candidate returns what
  \<open>positional_insert\<close> describes: \<open>false\<close> and the list unchanged when the identifier is
  already present; otherwise the candidate is placed before the first entry that is
  clockwise further from the starting key, the list is cut to its first \<open>max_entries_\<close>
  entries, and the result is \<open>true\<close> exactly when the candidate itself was kept.
\<close>

lemma RemotePeerList_ops_keep_list_inv:
  assumes "list_inv l" and "0 < ulong (max_entries l)"
    and "rp_id p < keys_in_ring" and "rp_port p \<noteq> 0"
  shows "RemotePeerList_Insert l p = Inr (positional_insert l p)
       \<and> list_inv (snd (positional_insert l p))
       \<and> list_inv (RemotePeerList_Delete l k)
       \<and> list_inv (RemotePeerList_Erase l)"
  using RemotePeerList_Insert_refines [OF assms] positional_insert_inv [OF assms(1) assms(3)]
    RemotePeerList_Delete_inv [OF assms(1)] RemotePeerList_Erase_inv [OF assms(1)]
  by simp

lemma RemotePeerList_ops_keep_list_inv_example:
  "(let a = \<lparr>rp_id = 7, rp_min_key = 6, rp_ip_addr = ''127.0.0.1'', rp_port = 7302\<rparr>;
        b = \<lparr>rp_id = 8, rp_min_key = 8, rp_ip_addr = ''127.0.0.1'', rp_port = 7303\<rparr>;
        c = \<lparr>rp_id = 2, rp_min_key = 9, rp_ip_addr = ''127.0.0.1'', rp_port = 7304\<rparr>;
        l = \<lparr>max_entries = 2, starting_key = 5, peers = [a, c]\<rparr>
    in list_inv l
     \<and> RemotePeerList_Insert l b = Inr (True, l\<lparr>peers := [a, b]\<rparr>)
     \<and> list_inv (l\<lparr>peers := [a, b]\<rparr>)
     \<and> RemotePeerList_Insert l c = Inr (False, l)
     \<and> list_inv (RemotePeerList_Delete l 7)
     \<and> list_inv (RemotePeerList_Erase l))"
proof -
  let ?a = "\<lparr>rp_id = 7, rp_min_key = 6, rp_ip_addr = ''127.0.0.1'', rp_port = 7302\<rparr>"
  let ?b = "\<lparr>rp_id = 8, rp_min_key = 8, rp_ip_addr = ''127.0.0.1'', rp_port = 7303\<rparr>"
  let ?c = "\<lparr>rp_id = 2, rp_min_key = 9, rp_ip_addr = ''127.0.0.1'', rp_port = 7304\<rparr>"
  let ?l = "\<lparr>max_entries = 2, starting_key = 5, peers = [?a, ?c]\<rparr>"
  have inv: "list_inv ?l"
    by (simp add: list_inv_def ulong_def offset_def clockwise_dist_def keys_in_ring_def)
  have cap: "0 < ulong (max_entries ?l)"
    by (simp add: ulong_def)
  have idb: "rp_id ?b < keys_in_ring" and idc: "rp_id ?c < keys_in_ring"
    by (simp_all add: keys_in_ring_def)
  have pb: "rp_port ?b \<noteq> 0" and pc: "rp_port ?c \<noteq> 0"
    by simp_all
  have posb: "positional_insert ?l ?b = (True, ?l\<lparr>peers := [?a, ?b]\<rparr>)"
    by (simp add: positional_insert_def ulong_def offset_def clockwise_dist_def keys_in_ring_def Let_def)
  have posc: "positional_insert ?l ?c = (False, ?l)"
    by (simp add: positional_insert_def)
  show ?thesis
    using inv RemotePeerList_ops_keep_list_inv [OF inv cap idb pb, of 7]
      RemotePeerList_ops_keep_list_inv [OF inv cap idc pc, of 7]
    unfolding posb posc
    by (simp add: Let_def)
qed

text \<open>
  The peer builds its list as \<open>successors_(num_succs_, id_)\<close>, so the starting key is
  the peer's own identifier, while the lists it installs are those of
  \<open>GetNSuccessors(id_ + 1, num_succs_)\<close>, ordered from \<open>id_ + 1\<close>. For every identifier
  other than the peer's own the two orders agree: the distance from \<open>id_ + 1\<close> is the
  distance from \<open>id_\<close> less one. They differ on the peer's own identifier only, which
  is the nearest key from \<open>id_\<close> and the furthest from \<open>id_ + 1\<close>.
\<close>

lemma clockwise_dist_from_next:
  assumes "s < keys_in_ring" "k < keys_in_ring" "k \<noteq> s"
  shows "clockwise_dist (key_plus_num s 1) k = clockwise_dist s k - 1"
proof -
  have next_reduced: "key_plus_num s 1 < keys_in_ring"
    using assms(1) keys_in_ring_gt by (auto simp: key_plus_num_one)
  have one: "clockwise_dist s (key_plus_num s 1) = 1"
    using assms(1) next_reduced keys_in_ring_gt
    by (auto simp: key_plus_num_one clockwise_dist_eq split: if_splits)
  have "clockwise_dist s k \<noteq> clockwise_dist s s"
    using clockwise_dist_inj [OF assms(1) assms(2) assms(1)] assms(3) by blast
  then have "1 \<le> clockwise_dist s k"
    using assms(1) by (simp add: clockwise_dist_self)
  then have "clockwise_dist s (key_plus_num s 1) \<le> clockwise_dist s k"
    using one by simp
  then show ?thesis
    using clockwise_dist_shift [OF assms(1) next_reduced assms(2)] one by simp
qed

lemma clockwise_order_from_next:
  assumes "s < keys_in_ring" "a < keys_in_ring" "b < keys_in_ring" "a \<noteq> s" "b \<noteq> s"
  shows "(clockwise_dist (key_plus_num s 1) a < clockwise_dist (key_plus_num s 1) b)
       = (clockwise_dist s a < clockwise_dist s b)"
proof -
  have "clockwise_dist s a \<noteq> clockwise_dist s s" "clockwise_dist s b \<noteq> clockwise_dist s s"
    using clockwise_dist_inj [OF assms(1) assms(2) assms(1)]
      clockwise_dist_inj [OF assms(1) assms(3) assms(1)] assms(4,5) by blast+
  then have "1 \<le> clockwise_dist s a" "1 \<le> clockwise_dist s b"
    using assms(1) by (simp_all add: clockwise_dist_self)
  then show ?thesis
    unfolding clockwise_dist_from_next [OF assms(1) assms(2) assms(4)]
      clockwise_dist_from_next [OF assms(1) assms(3) assms(5)]
    by linarith
qed

text \<open>
  Claim C6: every successor-list operation keeps the list at most \<open>K\<close> long, with
  pairwise distinct identifiers, sorted strictly increasing clockwise from
  \<open>self_id + 1\<close>, and \<open>Insert\<close> ignores (returns \<open>false\<close> for) a candidate whose
  identifier already appears in the list. The code departs from this on the peer's own
  identifier. Peer \<open>5\<close> (capacity \<open>4\<close>) in a ring with one other peer, \<open>7\<close>, installs
  with \<open>Populate\<close> the list \<open>[7, 5]\<close>, which has two distinct entries in strictly
  increasing clockwise order from \<open>6\<close>. \<open>Insert\<close> of a peer with identifier \<open>5\<close> then
  finds \<open>5\<close> in the closed arc from the starting key \<open>5\<close> to \<open>7\<close> before it reaches the
  entry \<open>5\<close>: it returns \<open>true\<close> and stores \<open>[5, 7, 5]\<close>, where the identifier \<open>5\<close>
  appears twice.
\<close>

theorem RemotePeerList_Insert_own_id_twice:
  "(let self = \<lparr>rp_id = 5, rp_min_key = 8, rp_ip_addr = ''127.0.0.1'', rp_port = 7300\<rparr>;
        other = \<lparr>rp_id = 7, rp_min_key = 6, rp_ip_addr = ''127.0.0.1'', rp_port = 7302\<rparr>;
        l = RemotePeerList_Populate
              (cp_successors (AbstractChordPeer_new ''127.0.0.1'' 7300 4 5)) [other, self]
    in length (peers l) \<le> ulong (max_entries l)
     \<and> distinct (map rp_id (peers l))
     \<and> sorted_wrt (<) (map (\<lambda>p. clockwise_dist (key_plus_num 5 1) (rp_id p)) (peers l))
     \<and> RemotePeerList_Insert l self = Inr (True, l\<lparr>peers := [self, other, self]\<rparr>)
     \<and> \<not> distinct (map rp_id [self, other, self]))"
proof -
  let ?self = "\<lparr>rp_id = 5, rp_min_key = 8, rp_ip_addr = ''127.0.0.1'', rp_port = 7300\<rparr>"
  let ?other = "\<lparr>rp_id = 7, rp_min_key = 6, rp_ip_addr = ''127.0.0.1'', rp_port = 7302\<rparr>"
  let ?l = "\<lparr>max_entries = 4, starting_key = 5, peers = [?other, ?self]\<rparr>"
  have l: "RemotePeerList_Populate
      (cp_successors (AbstractChordPeer_new ''127.0.0.1'' 7300 4 5)) [?other, ?self] = ?l"
    by (simp add: RemotePeerList_Populate_def AbstractChordPeer_new_def RemotePeerList_new_def)
  have ib: "InBetween 5 5 7 True"
    by (simp add: InBetween_def Let_def keys_in_ring_def)
  have cap: "ulong 4 = 4"
    by (simp add: ulong_def)
  have one: "key_plus_num 5 1 = 6"
    by (simp add: key_plus_num_def uint256_def keys_in_ring_def)
  have five: "clockwise_dist 6 5 = keys_in_ring - 1" and seven: "clockwise_dist 6 7 = 1"
    by (simp_all add: clockwise_dist_eq keys_in_ring_def)
  have "1 < keys_in_ring - 1"
    using keys_in_ring_gt by simp
  then have srt: "sorted_wrt (<) (map (\<lambda>p. clockwise_dist (key_plus_num 5 1) (rp_id p)) (peers ?l))"
    by (simp add: one five seven)
  have ins: "RemotePeerList_Insert ?l ?self = Inr (True, ?l\<lparr>peers := [?self, ?other, ?self]\<rparr>)"
    by (simp add: RemotePeerList_Insert_def ib cap)
  have len: "length (peers ?l) \<le> ulong (max_entries ?l)"
    by (simp add: cap)
  show ?thesis
    unfolding Let_def l using len srt ins by simp
qed

text \<open>
  On an empty list the same comparison puts the peer's own identifier first: after
  \<open>Insert(7)\<close> and \<open>Insert(5)\<close> the list of peer \<open>5\<close> is \<open>[5, 7]\<close>, which is not
  increasing clockwise from \<open>6\<close>.
\<close>

lemma RemotePeerList_Insert_own_id_first:
  "RemotePeerList_Insert (cp_successors (AbstractChordPeer_new ''127.0.0.1'' 7300 4 5))
      \<lparr>rp_id = 7, rp_min_key = 6, rp_ip_addr = ''127.0.0.1'', rp_port = 7302\<rparr>
     = Inr (True, \<lparr>max_entries = 4, starting_key = 5,
          peers = [\<lparr>rp_id = 7, rp_min_key = 6, rp_ip_addr = ''127.0.0.1'', rp_port = 7302\<rparr>]\<rparr>)
   \<and> RemotePeerList_Insert
        \<lparr>max_entries = 4, starting_key = 5,
          peers = [\<lparr>rp_id = 7, rp_min_key = 6, rp_ip_addr = ''127.0.0.1'', rp_port = 7302\<rparr>]\<rparr>
        \<lparr>rp_id = 5, rp_min_key = 8, rp_ip_addr = ''127.0.0.1'', rp_port = 7300\<rparr>
     = Inr (True, \<lparr>max_entries = 4, starting_key = 5,
          peers = [\<lparr>rp_id = 5, rp_min_key = 8, rp_ip_addr = ''127.0.0.1'', rp_port = 7300\<rparr>,
                   \<lparr>rp_id = 7, rp_min_key = 6, rp_ip_addr = ''127.0.0.1'', rp_port = 7302\<rparr>]\<rparr>)
   \<and> \<not> sorted_wrt (<) (map (clockwise_dist (key_plus_num 5 1)) [5, 7])"
proof -
  have ib: "InBetween 5 5 7 True"
    by (simp add: InBetween_def Let_def keys_in_ring_def)
  have cap: "ulong 4 = 4"
    by (simp add: ulong_def)
  have one: "key_plus_num 5 1 = 6"
    by (simp add: key_plus_num_def uint256_def keys_in_ring_def)
  have five: "clockwise_dist 6 5 = keys_in_ring - 1" and seven: "clockwise_dist 6 7 = 1"
    by (simp_all add: clockwise_dist_eq keys_in_ring_def)
  have "\<not> keys_in_ring - 1 < 1"
    using keys_in_ring_gt by simp
  then have unsorted: "\<not> sorted_wrt (<) (map (clockwise_dist (key_plus_num 5 1)) [5, 7])"
    by (simp add: one five seven)
  have first: "RemotePeerList_Insert (cp_successors (AbstractChordPeer_new ''127.0.0.1'' 7300 4 5))
      \<lparr>rp_id = 7, rp_min_key = 6, rp_ip_addr = ''127.0.0.1'', rp_port = 7302\<rparr>
     = Inr (True, \<lparr>max_entries = 4, starting_key = 5,
          peers = [\<lparr>rp_id = 7, rp_min_key = 6, rp_ip_addr = ''127.0.0.1'', rp_port = 7302\<rparr>]\<rparr>)"
    by (simp add: RemotePeerList_Insert_def AbstractChordPeer_new_def RemotePeerList_new_def)
  have second: "RemotePeerList_Insert
        \<lparr>max_entries = 4, starting_key = 5,
          peers = [\<lparr>rp_id = 7, rp_min_key = 6, rp_ip_addr = ''127.0.0.1'', rp_port = 7302\<rparr>]\<rparr>
        \<lparr>rp_id = 5, rp_min_key = 8, rp_ip_addr = ''127.0.0.1'', rp_port = 7300\<rparr>
     = Inr (True, \<lparr>max_entries = 4, starting_key = 5,
          peers = [\<lparr>rp_id = 5, rp_min_key = 8, rp_ip_addr = ''127.0.0.1'', rp_port = 7300\<rparr>,
                   \<lparr>rp_id = 7, rp_min_key = 6, rp_ip_addr = ''127.0.0.1'', rp_port = 7302\<rparr>]\<rparr>)"
    by (simp add: RemotePeerList_Insert_def ib cap)
  show ?thesis
    using first second unsorted by blast
qed

section \<open>Successor lookup (abstract_chord_peer.cpp, chord_peer.cpp)\<close>

text \<open>
  The network is a snapshot: which peers answer, and what a peer answers to a
  \<open>GET_SUCC\<close> request for a key (\<open>None\<close> stands for a response without \<open>SUCCESS\<close>).
  \<open>RemotePeer::SendRequest\<close> throws when the peer is down or the request fails.
  \<open>ForwardRequest\<close> is pure virtual in \<open>AbstractChordPeer\<close>; \<open>GetSuccessor\<close> takes it
  as a parameter, and \<open>ChordPeer_ForwardRequest\<close> is the override of \<open>ChordPeer\<close>.
\<close>

record network =
  IsAlive :: "RemotePeer \<Rightarrow> bool"
  MakeRequest :: "RemotePeer \<Rightarrow> nat \<Rightarrow> RemotePeer option"

definition SendRequest :: "network \<Rightarrow> RemotePeer \<Rightarrow> nat \<Rightarrow> error + RemotePeer" where
  "SendRequest net peer key =
     (if IsAlive net peer then
        (case MakeRequest net peer key of
           Some resp \<Rightarrow> Inr resp
         | None \<Rightarrow> Inl FailedRequest)
      else Inl PeerDown)"

fun FingerTable_Lookup :: "Finger list \<Rightarrow> nat \<Rightarrow> error + RemotePeer" where
  "FingerTable_Lookup [] key = Inl ChordKeyNotFound"
| "FingerTable_Lookup (finger # rest) key =
     (if InBetween key (lower_bound finger) (upper_bound finger) True
      then Inr (successor finger)
      else FingerTable_Lookup rest key)"

fun lookup_from :: "nat \<Rightarrow> nat \<Rightarrow> RemotePeer list \<Rightarrow> RemotePeer option" where
  "lookup_from key previous_id [] = None"
| "lookup_from key previous_id (p # rest) =
     (if InBetween key previous_id (rp_id p) True then Some p
      else lookup_from key (rp_id p) rest)"

definition RemotePeerList_Lookup :: "RemotePeerList \<Rightarrow> nat \<Rightarrow> RemotePeer option" where
  "RemotePeerList_Lookup l key = lookup_from key (starting_key l) (peers l)"

definition ChordPeer_ForwardRequest ::
  "network \<Rightarrow> AbstractChordPeer \<Rightarrow> nat \<Rightarrow> error + RemotePeer" where
  "ChordPeer_ForwardRequest net peer key =
     (case FingerTable_Lookup (table (cp_finger_table peer)) key of
        Inl e \<Rightarrow> Inl e
      | Inr key_succ \<Rightarrow>
          (if rp_id key_succ = cp_id peer then
             (case cp_predecessor peer of
                None \<Rightarrow> Inl PeerHasNoValue
              | Some pred \<Rightarrow>
                  if IsAlive net pred then SendRequest net pred key
                  else if \<not> IsAlive net key_succ then
                    (case RemotePeerList_Lookup (cp_successors peer) key of
                       Some s \<Rightarrow> if IsAlive net s then SendRequest net s key else Inl LookupFailed
                     | None \<Rightarrow> Inl LookupFailed)
                  else SendRequest net key_succ key)
           else if \<not> IsAlive net key_succ then
             (case RemotePeerList_Lookup (cp_successors peer) key of
                Some s \<Rightarrow> if IsAlive net s then SendRequest net s key else Inl LookupFailed
              | None \<Rightarrow> Inl LookupFailed)
           else SendRequest net key_succ key))"

definition StoredLocally :: "AbstractChordPeer \<Rightarrow> nat \<Rightarrow> bool" where
  "StoredLocally peer key = InBetween key (cp_min_key peer) (cp_id peer) True"

definition ToRemotePeer :: "AbstractChordPeer \<Rightarrow> RemotePeer" where
  "ToRemotePeer peer =
     \<lparr>rp_id = cp_id peer, rp_min_key = cp_min_key peer,
      rp_ip_addr = cp_ip_addr peer, rp_port = cp_port peer\<rparr>"

definition StartChord :: "AbstractChordPeer \<Rightarrow> AbstractChordPeer" where
  "StartChord peer = peer\<lparr>cp_min_key := key_plus_num (cp_id peer) 1\<rparr>"

definition GetSuccessor ::
  "(AbstractChordPeer \<Rightarrow> nat \<Rightarrow> error + RemotePeer) \<Rightarrow> AbstractChordPeer \<Rightarrow> nat
     \<Rightarrow> error + RemotePeer" where
  "GetSuccessor ForwardRequest peer key =
     (if StoredLocally peer key then Inr (ToRemotePeer peer)
      else ForwardRequest peer key)"

lemma StoredLocally_StartChord:
  assumes "cp_id peer < keys_in_ring"
  shows "StoredLocally (StartChord peer) key"
proof (cases "cp_id peer = keys_in_ring - 1")
  case True
  have "key mod keys_in_ring < keys_in_ring"
    using keys_in_ring_gt by simp
  then have "key mod keys_in_ring \<le> keys_in_ring - 1" by simp
  then show ?thesis
    using True assms keys_in_ring_gt
    by (simp add: StoredLocally_def StartChord_def key_plus_num_one InBetween_def Let_def)
next
  case False
  then have "Suc (cp_id peer) < keys_in_ring" using assms by simp
  then show ?thesis
    using False assms
    by (simp add: StoredLocally_def StartChord_def key_plus_num_one InBetween_def Let_def)
qed

subsection \<open>Local ownership comes first\<close>

text \<open>
  Claim C4. For every key \<open>k\<close> on the closed clockwise arc from \<open>min_key\<close> to \<open>id\<close>
  (equivalently, every key for which \<open>StoredLocally\<close> holds), \<open>GetSuccessor(k)\<close>
  returns the peer itself, whatever \<open>ForwardRequest\<close> would do: the finger table and
  the successor list are not consulted. \<open>StartChord\<close> sets \<open>min_key = id + 1\<close>, after
  which the peer returns itself as the successor of every key.
\<close>

theorem GetSuccessor_local_first:
  assumes "cp_id peer < keys_in_ring" and "cp_min_key peer < keys_in_ring"
  shows "(k < keys_in_ring
          \<and> clockwise_dist (cp_min_key peer) k \<le> clockwise_dist (cp_min_key peer) (cp_id peer)
          \<longrightarrow> GetSuccessor ForwardRequest peer k = Inr (ToRemotePeer peer))
       \<and> (StoredLocally peer k \<longrightarrow> GetSuccessor ForwardRequest peer k = Inr (ToRemotePeer peer))
       \<and> cp_min_key (StartChord peer) = key_plus_num (cp_id peer) 1
       \<and> GetSuccessor ForwardRequest (StartChord peer) key = Inr (ToRemotePeer (StartChord peer))"
proof -
  have "StoredLocally peer k"
    if "k < keys_in_ring"
      "clockwise_dist (cp_min_key peer) k \<le> clockwise_dist (cp_min_key peer) (cp_id peer)"
    using that InBetween_arc [OF that(1) assms(2) assms(1)] by (simp add: StoredLocally_def)
  then show ?thesis
    using StoredLocally_StartChord [OF assms(1)]
    by (auto simp: GetSuccessor_def StartChord_def)
qed

theorem GetSuccessor_local_first_witness:
  "(let net = \<lparr>IsAlive = (\<lambda>p. False), MakeRequest = (\<lambda>p k. None)\<rparr>;
        fresh = AbstractChordPeer_new ''127.0.0.1'' 7300 4 9;
        peer = fresh\<lparr>cp_min_key := 3\<rparr>
    in clockwise_dist (cp_min_key peer) 4 \<le> clockwise_dist (cp_min_key peer) (cp_id peer)
     \<and> ChordPeer_ForwardRequest net peer 4 = Inl ChordKeyNotFound
     \<and> GetSuccessor (ChordPeer_ForwardRequest net) peer 4 = Inr (ToRemotePeer peer)
     \<and> GetSuccessor (ChordPeer_ForwardRequest net) (StartChord fresh) 1000
         = Inr \<lparr>rp_id = 9, rp_min_key = 10, rp_ip_addr = ''127.0.0.1'', rp_port = 7300\<rparr>)"
proof -
  let ?net = "\<lparr>IsAlive = (\<lambda>p. False), MakeRequest = (\<lambda>p k. None)\<rparr>"
  let ?fresh = "AbstractChordPeer_new ''127.0.0.1'' 7300 4 9"
  let ?peer = "?fresh\<lparr>cp_min_key := 3\<rparr>"
  have a: "cp_id ?peer < keys_in_ring" "cp_min_key ?peer < keys_in_ring"
    and b: "cp_id ?fresh < keys_in_ring" "cp_min_key ?fresh < keys_in_ring"
    by (simp_all add: AbstractChordPeer_new_def keys_in_ring_def)
  have d: "(4::nat) < keys_in_ring
      \<and> clockwise_dist (cp_min_key ?peer) 4 \<le> clockwise_dist (cp_min_key ?peer) (cp_id ?peer)"
    by (simp add: AbstractChordPeer_new_def clockwise_dist_def keys_in_ring_def)
  have e: "ChordPeer_ForwardRequest ?net ?peer 4 = Inl ChordKeyNotFound"
    by (simp add: ChordPeer_ForwardRequest_def AbstractChordPeer_new_def)
  have f: "ToRemotePeer (StartChord ?fresh)
      = \<lparr>rp_id = 9, rp_min_key = 10, rp_ip_addr = ''127.0.0.1'', rp_port = 7300\<rparr>"
    by (simp add: ToRemotePeer_def StartChord_def AbstractChordPeer_new_def key_plus_num_def
        uint256_def keys_in_ring_def)
  show ?thesis
    using GetSuccessor_local_first [OF a, of 4 "ChordPeer_ForwardRequest ?net" 4]
      GetSuccessor_local_first [OF b, of 4 "ChordPeer_ForwardRequest ?net" 1000] d e f
    by (simp add: Let_def)
qed

section \<open>The Merkle tree store (merkle_tree.h)\<close>

unbundle bit_operations_syntax


text \<open>
  A node of \<open>MerkleTree<ValType>\<close>: the range \<open>[min_key_, max_key_)\<close> it covers, its
  hash (the value of the \<open>ChordKey\<close>), its position (the child indices from the root),
  its children (empty at a leaf), the key/value pairs of a leaf (\<open>data_\<close>, a
  \<open>std::map\<close>, here the list of its pairs in increasing key order) and the cached
  largest key. The SHA-1 name generator is Boost's; the functions that hash take it as
  the parameter \<open>sha1\<close>, from a string to the value of the resulting key.
\<close>

datatype 'v MerkleTree = MerkleTree
  (min_key: nat) (max_key: nat) (hash: nat) (position: "nat list")
  (child_nodes: "'v MerkleTree list") (data: "(nat \<times> 'v) list") (largest_key: "nat option")

definition num_children :: nat where
  "num_children = 8"

text \<open>
  \<open>IntToHexStr\<close>: \<open>std::hex\<close> output of the key value, lower case, no leading zeros.
\<close>

definition hex_digit :: "nat \<Rightarrow> char" where
  "hex_digit d = ''0123456789abcdef'' ! d"

fun IntToHexStr :: "nat \<Rightarrow> string" where
  "IntToHexStr val =
     (if val < 16 then [hex_digit val]
      else IntToHexStr (val div 16) @ [hex_digit (val mod 16)])"


definition GetDepth :: "'v MerkleTree \<Rightarrow> nat" where
  "GetDepth t = length (position t)"

text \<open>
  \<open>ChildNum(key)\<close>: keys outside the range are clamped to the last or the first child;
  otherwise the key is shifted right by \<open>128 - 3 * (depth + 1)\<close> bits and masked with
  \<open>num_children_ - 1\<close>. Boost throws \<open>std::out_of_range\<close> on a negative shift count.
\<close>

definition ChildNum :: "'v MerkleTree \<Rightarrow> nat \<Rightarrow> error + nat" where
  "ChildNum t key =
     (if key \<ge> max_key t then Inr (num_children - 1)
      else if key < min_key t then Inr 0
      else
        (let shift = 128 - 3 * (int (GetDepth t) + 1)
         in if shift < 0 then Inl OutOfRange
            else Inr (drop_bit (nat shift) key AND (num_children - 1))))"


text \<open>
  The operations of \<open>std::map\<close> used on \<open>data_\<close>: \<open>insert\<close> (which keeps an entry
  already present), \<open>erase\<close>, assignment through \<open>at\<close>, and \<open>find\<close>.
\<close>

fun map_insert :: "nat \<times> 'v \<Rightarrow> (nat \<times> 'v) list \<Rightarrow> (nat \<times> 'v) list" where
  "map_insert (k, v) [] = [(k, v)]"
| "map_insert (k, v) ((k', v') # rest) =
     (if k < k' then (k, v) # (k', v') # rest
      else if k = k' then (k', v') # rest
      else (k', v') # map_insert (k, v) rest)"

definition map_erase :: "nat \<Rightarrow> (nat \<times> 'v) list \<Rightarrow> (nat \<times> 'v) list" where
  "map_erase k d = filter (\<lambda>(k', _). k' \<noteq> k) d"

definition map_assign :: "nat \<Rightarrow> 'v \<Rightarrow> (nat \<times> 'v) list \<Rightarrow> (nat \<times> 'v) list" where
  "map_assign k v d = map (\<lambda>(k', v'). if k' = k then (k', v) else (k', v')) d"

definition map_contains :: "nat \<Rightarrow> (nat \<times> 'v) list \<Rightarrow> bool" where
  "map_contains k d = (map_of d k \<noteq> None)"

text \<open>
  \<open>Rehash()\<close>: a leaf hashes the concatenation of the hex strings of its keys, an
  internal node the concatenation of its children's hash strings; an empty leaf, and an
  internal node whose concatenation is \<open>num_children_\<close> zero characters, get the key
  \<open>0\<close>. The values stored under the keys are not read.
\<close>

definition Rehash :: "(string \<Rightarrow> nat) \<Rightarrow> 'v MerkleTree \<Rightarrow> 'v MerkleTree" where
  "Rehash sha1 t =
     (case t of MerkleTree mn mx h pos cs d lk \<Rightarrow>
        if cs = [] then
          (if d = [] then MerkleTree mn mx 0 pos cs d lk
           else MerkleTree mn mx (sha1 (concat (map (\<lambda>(key, _). IntToHexStr key) d))) pos cs d lk)
        else
          (let concatenated_keys = concat (map (\<lambda>node. IntToHexStr (hash node)) cs)
           in if concatenated_keys = replicate num_children CHR ''0''
              then MerkleTree mn mx 0 pos cs d lk
              else MerkleTree mn mx (sha1 concatenated_keys) pos cs d lk))"

text \<open>
  \<open>CreateChildren()\<close>: \<open>num_children_\<close> children of equal width are appended; each
  takes from the front of \<open>data_\<close> the entries that \<open>InBetween\<close> places in its range
  (the \<open>while\<close> loop is \<open>takeWhile\<close>/\<open>dropWhile\<close>), and is rehashed. The bounds are
  computed on \<open>uint256_t\<close>.
\<close>

fun create_loop ::
  "(string \<Rightarrow> nat) \<Rightarrow> nat list \<Rightarrow> nat \<Rightarrow> nat list \<Rightarrow> nat \<Rightarrow> (nat \<times> 'v) list
     \<Rightarrow> 'v MerkleTree list \<times> (nat \<times> 'v) list" where
  "create_loop sha1 pos step [] last_key d = ([], d)"
| "create_loop sha1 pos step (i # rest) last_key d =
     (let ub = (last_key + step) mod 2 ^ 256;
          in_child = (\<lambda>(key, _). InBetween key last_key (uint256 (int ub - 1)) True);
          child = Rehash sha1 (MerkleTree last_key ub 0 (pos @ [i]) [] (takeWhile in_child d) None);
          (children, left) = create_loop sha1 pos step rest ub (dropWhile in_child d)
      in (child # children, left))"

definition CreateChildren :: "(string \<Rightarrow> nat) \<Rightarrow> 'v MerkleTree \<Rightarrow> 'v MerkleTree" where
  "CreateChildren sha1 t =
     (case t of MerkleTree mn mx h pos cs d lk \<Rightarrow>
        let key_range = key_minus mx mn;
            (children, left) = create_loop sha1 pos (key_range div num_children) [0..<num_children] mn d
        in MerkleTree mn mx h pos (cs @ children) left lk)"

definition ToInternal :: "(string \<Rightarrow> nat) \<Rightarrow> 'v MerkleTree \<Rightarrow> 'v MerkleTree" where
  "ToInternal sha1 t = CreateChildren sha1 t"

text \<open>
  The default constructor: the root covers \<open>[0, 16^32)\<close> and is split at once, so the
  root is never a leaf.
\<close>

definition MerkleTree_new :: "(string \<Rightarrow> nat) \<Rightarrow> 'v MerkleTree" where
  "MerkleTree_new sha1 = CreateChildren sha1 (MerkleTree 0 keys_in_ring 0 [] [] [] None)"

text \<open>
  \<open>Insert\<close> returns the error it raised, if any, together with the tree as it is left:
  the largest-key cache is updated on the way down, before \<open>Key already exists\<close> can be
  thrown at the leaf, and an exception does not undo it. \<open>Update\<close> and \<open>Delete\<close> change
  nothing before they throw.
\<close>

lemma size_child:
  "i < length cs \<Longrightarrow> size (cs ! i) < Suc (size_list size cs)"
proof (induction cs arbitrary: i)
  case Nil
  then show ?case by simp
next
  case (Cons c cs)
  show ?case
  proof (cases i)
    case 0
    then show ?thesis by simp
  next
    case (Suc j)
    then have "size (cs ! j) < Suc (size_list size cs)"
      using Cons.IH [of j] Cons.prems by simp
    then show ?thesis using Suc by simp
  qed
qed

lemma size_child_plus [termination_simp]:
  "i < length cs \<Longrightarrow> size (cs ! i) < Suc (size_list size cs + n)"
  using size_child [of i cs] by simp

fun Insert ::
  "(string \<Rightarrow> nat) \<Rightarrow> nat \<times> 'v \<Rightarrow> 'v MerkleTree \<Rightarrow> error option \<times> 'v MerkleTree" where
  "Insert sha1 (k, v) (MerkleTree mn mx h pos cs d lk) =
     (let lk' = (if (lk \<noteq> None \<and> k > the lk) \<or> lk = None then Some k else lk)
      in if cs = [] then
           (if map_contains k d then (Some KeyAlreadyExists, MerkleTree mn mx h pos cs d lk')
            else
              (let d' = map_insert (k, v) d
               in if length d' > num_children
                  then (None, Rehash sha1 (ToInternal sha1 (MerkleTree mn mx h pos cs d' lk')))
                  else (None, Rehash sha1 (MerkleTree mn mx h pos cs d' lk'))))
         else
           (case ChildNum (MerkleTree mn mx h pos cs d lk') k of
              Inl e \<Rightarrow> (Some e, MerkleTree mn mx h pos cs d lk')
            | Inr node_index \<Rightarrow>
                if node_index < length cs then
                  (case Insert sha1 (k, v) (cs ! node_index) of
                     (Some e, c) \<Rightarrow> (Some e, MerkleTree mn mx h pos (cs[node_index := c]) d lk')
                   | (None, c) \<Rightarrow>
                       (None, Rehash sha1 (MerkleTree mn mx h pos (cs[node_index := c]) d lk')))
                else (Some OutOfRange, MerkleTree mn mx h pos cs d lk')))"

fun Contains :: "'v MerkleTree \<Rightarrow> nat \<Rightarrow> error + bool" where
  "Contains (MerkleTree mn mx h pos cs d lk) key =
     (if cs = [] then Inr (map_contains key d)
      else
        (case ChildNum (MerkleTree mn mx h pos cs d lk) key of
           Inl e \<Rightarrow> Inl e
         | Inr node_index \<Rightarrow>
             if node_index < length cs then Contains (cs ! node_index) key
             else Inl OutOfRange))"

fun Lookup :: "'v MerkleTree \<Rightarrow> nat \<Rightarrow> error + 'v" where
  "Lookup (MerkleTree mn mx h pos cs d lk) key =
     (if cs = [] then
        (case map_of d key of
           Some v \<Rightarrow> Inr v
         | None \<Rightarrow> Inl KeyDoesNotExist)
      else
        (case ChildNum (MerkleTree mn mx h pos cs d lk) key of
           Inl e \<Rightarrow> Inl e
         | Inr node_index \<Rightarrow>
             if node_index < length cs then Lookup (cs ! node_index) key
             else Inl OutOfRange))"

fun Update :: "(string \<Rightarrow> nat) \<Rightarrow> nat \<times> 'v \<Rightarrow> 'v MerkleTree \<Rightarrow> error + 'v MerkleTree" where
  "Update sha1 (k, v) (MerkleTree mn mx h pos cs d lk) =
     (if cs = [] then
        (if map_contains k d
         then Inr (Rehash sha1 (MerkleTree mn mx h pos cs (map_assign k v d) lk))
         else Inl KeyDoesNotExist)
      else
        (case ChildNum (MerkleTree mn mx h pos cs d lk) k of
           Inl e \<Rightarrow> Inl e
         | Inr node_index \<Rightarrow>
             if node_index < length cs then
               (case Update sha1 (k, v) (cs ! node_index) of
                  Inl e \<Rightarrow> Inl e
                | Inr c \<Rightarrow> Inr (Rehash sha1 (MerkleTree mn mx h pos (cs[node_index := c]) d lk)))
             else Inl OutOfRange))"

fun GetLargestEntry :: "'v MerkleTree \<Rightarrow> (nat \<times> 'v) option" where
  "GetLargestEntry (MerkleTree mn mx h pos cs d lk) =
     (if h = 0 then None
      else if cs = [] then (if d = [] then None else Some (last d))
      else
        fold (\<lambda>c res. case res of Some e \<Rightarrow> Some e | None \<Rightarrow> GetLargestEntry c) (rev cs) None)"

fun Delete :: "(string \<Rightarrow> nat) \<Rightarrow> nat \<Rightarrow> 'v MerkleTree \<Rightarrow> error + 'v MerkleTree" where
  "Delete sha1 key (MerkleTree mn mx h pos cs d lk) =
     (if cs = [] then
        (if map_contains key d
         then Inr (Rehash sha1 (MerkleTree mn mx h pos cs (map_erase key d) lk))
         else Inl KeyDoesNotExist)
      else
        (case ChildNum (MerkleTree mn mx h pos cs d lk) key of
           Inl e \<Rightarrow> Inl e
         | Inr node_index \<Rightarrow>
             if node_index < length cs then
               (case Delete sha1 key (cs ! node_index) of
                  Inl e \<Rightarrow> Inl e
                | Inr c \<Rightarrow>
                    (case Rehash sha1 (MerkleTree mn mx h pos (cs[node_index := c]) d lk) of
                       MerkleTree mn' mx' h' pos' cs' d' lk' \<Rightarrow>
                         Inr (MerkleTree mn' mx' h' pos' cs' d'
                               (map_option fst (GetLargestEntry (MerkleTree mn' mx' h' pos' cs' d' lk')))))
                )
             else Inl OutOfRange))"


lemma and_seven: "(x::nat) AND 7 = x mod 8"
  using take_bit_eq_mask [of 3 x] by (simp add: take_bit_eq_mod mask_eq_exp_minus_1)

lemma keys_in_ring_pow2: "keys_in_ring = 2 ^ 128"
  by (simp add: keys_in_ring_def)

definition child_width :: "nat list \<Rightarrow> nat" where
  "child_width pos = 2 ^ (125 - 3 * length pos)"

lemma child_width_pos: "0 < child_width pos"
  by (simp add: child_width_def)

lemma node_width:
  assumes "length pos \<le> 41"
  shows "2 ^ (128 - 3 * length pos) = num_children * child_width pos"
proof -
  have "128 - 3 * length pos = 3 + (125 - 3 * length pos)"
    using assms by simp
  then have "(2::nat) ^ (128 - 3 * length pos) = 2 ^ 3 * 2 ^ (125 - 3 * length pos)"
    by (simp only: power_add)
  then show ?thesis
    by (simp add: child_width_def num_children_def)
qed

lemma ChildNum_in_range:
  assumes deep: "length pos \<le> 41"
    and aligned: "2 ^ (128 - 3 * length pos) dvd mn"
    and width: "mx = mn + 2 ^ (128 - 3 * length pos)"
    and lo: "mn \<le> k" and hi: "k < mx"
  shows "ChildNum (MerkleTree mn mx h pos cs d lk) k = Inr ((k - mn) div child_width pos)"
    and "(k - mn) div child_width pos < num_children"
proof -
  let ?S = "child_width pos"
  have nw: "2 ^ (128 - 3 * length pos) = num_children * ?S"
    using deep by (rule node_width)
  obtain c where c: "mn = (num_children * ?S) * c"
    using aligned unfolding nw by (auto elim: dvdE)
  define r where "r = k - mn"
  have k: "k = mn + r" using lo by (simp add: r_def)
  have r: "r < num_children * ?S" using hi width nw k by simp
  then show small: "(k - mn) div ?S < num_children"
    unfolding r_def [symmetric]
    by (simp add: less_mult_imp_div_less mult.commute)
  have "?S dvd mn" using c by simp
  then have "k div ?S = mn div ?S + r div ?S"
    unfolding k by (rule div_plus_div_distrib_dvd_left)
  also have "mn div ?S = num_children * c"
    using c child_width_pos [of pos] by simp
  finally have "(k div ?S) mod 8 = (r div ?S) mod 8"
    by (simp add: num_children_def)
  also have "\<dots> = r div ?S"
    using small by (simp add: r_def num_children_def)
  finally have idx: "(k div ?S) mod 8 = (k - mn) div ?S"
    by (simp add: r_def)
  have shift: "nat (125 - 3 * int (length pos)) = 125 - 3 * length pos"
    using deep by arith
  show "ChildNum (MerkleTree mn mx h pos cs d lk) k = Inr ((k - mn) div ?S)"
    using lo hi idx deep
    by (simp add: ChildNum_def GetDepth_def shift Let_def num_children_def and_seven
        drop_bit_eq_div child_width_def)
qed


text \<open>
  The hash \<open>Rehash\<close> assigns, as a function of the children and the data.
\<close>

definition node_hash :: "(string \<Rightarrow> nat) \<Rightarrow> 'v MerkleTree list \<Rightarrow> (nat \<times> 'v) list \<Rightarrow> nat" where
  "node_hash sha1 cs d =
     (if cs = [] then
        (if d = [] then 0 else sha1 (concat (map (\<lambda>(key, _). IntToHexStr key) d)))
      else if concat (map (\<lambda>node. IntToHexStr (hash node)) cs) = replicate num_children CHR ''0''
        then 0
        else sha1 (concat (map (\<lambda>node. IntToHexStr (hash node)) cs)))"

lemma Rehash_eq:
  "Rehash sha1 (MerkleTree mn mx h pos cs d lk) = MerkleTree mn mx (node_hash sha1 cs d) pos cs d lk"
  by (simp add: Rehash_def node_hash_def Let_def)

definition child_index :: "nat \<Rightarrow> nat \<Rightarrow> nat list \<Rightarrow> nat \<Rightarrow> error + nat" where
  "child_index mn mx pos k = ChildNum (MerkleTree mn mx 0 pos [] [] None :: unit MerkleTree) k"

lemma ChildNum_eq:
  "ChildNum (MerkleTree mn mx h pos cs d lk) k = child_index mn mx pos k"
  by (simp add: child_index_def ChildNum_def GetDepth_def)

lemma map_of_map_insert:
  "\<not> map_contains k d \<Longrightarrow> map_of (map_insert (k, v) d) k = Some v"
  by (induction d) (auto simp: map_contains_def)

lemma map_of_map_erase: "map_of (map_erase k d) k = None"
  by (induction d) (auto simp: map_erase_def)

lemma Insert_present:
  "Contains t k = Inr True \<Longrightarrow> fst (Insert sha1 (k, v) t) = Some KeyAlreadyExists"
proof (induction t k rule: Contains.induct)
  case (1 mn mx h pos cs d lk key)
  then show ?case
    by (auto simp: ChildNum_eq Let_def split: sum.splits if_splits prod.splits option.splits)
qed

lemma Insert_absent:
  "Contains t k = Inr False \<Longrightarrow> fst (Insert sha1 (k, v) t) = None"
proof (induction t k rule: Contains.induct)
  case (1 mn mx h pos cs d lk key)
  then show ?case
    by (auto simp: ChildNum_eq Let_def split: sum.splits if_splits prod.splits option.splits)
qed

lemma Update_absent:
  "Contains t k = Inr False \<Longrightarrow> Update sha1 (k, v) t = Inl KeyDoesNotExist"
proof (induction t k rule: Contains.induct)
  case (1 mn mx h pos cs d lk key)
  then show ?case
    by (auto simp: ChildNum_eq split: sum.splits if_splits)
qed

lemma Delete_absent:
  "Contains t k = Inr False \<Longrightarrow> Delete sha1 k t = Inl KeyDoesNotExist"
proof (induction t k rule: Contains.induct)
  case (1 mn mx h pos cs d lk key)
  then show ?case
    by (auto simp: ChildNum_eq split: sum.splits if_splits)
qed

lemma Delete_after_Lookup:
  "Lookup t k = Inr v \<Longrightarrow> \<exists>t'. Delete sha1 k t = Inr t' \<and> Lookup t' k = Inl KeyDoesNotExist"
proof (induction t k rule: Lookup.induct)
  case (1 mn mx h pos cs d lk key)
  show ?case
  proof (cases "cs = []")
    case True
    then show ?thesis
      using "1.prems"
      by (auto simp: Rehash_eq map_contains_def map_of_map_erase split: option.splits)
  next
    case False
    then obtain i where i: "child_index mn mx pos key = Inr i" "i < length cs"
      and found: "Lookup (cs ! i) key = Inr v"
      using "1.prems" by (auto simp: ChildNum_eq split: sum.splits if_splits)
    have "\<exists>c. Delete sha1 key (cs ! i) = Inr c \<and> Lookup c key = Inl KeyDoesNotExist"
      using "1.IH" [OF False _ i(2) found] i(1) by (simp add: ChildNum_eq)
    then obtain c where c: "Delete sha1 key (cs ! i) = Inr c" "Lookup c key = Inl KeyDoesNotExist"
      by blast
    show ?thesis
      using False i c by (simp add: ChildNum_eq Rehash_eq)
  qed
qed


text \<open>
  The shape of the trees the constructor and the operations build: a node at depth
  \<open>n\<close> covers an aligned range of \<open>2 ^ (128 - 3n)\<close> keys inside the ring; a leaf holds
  its entries in strictly increasing key order, all within its range; an internal node
  has \<open>num_children_\<close> children that split its range evenly, each positioned below it.
\<close>

fun well_formed :: "'v MerkleTree \<Rightarrow> bool" where
  "well_formed (MerkleTree mn mx h pos cs d lk) =
     (length pos \<le> 42
      \<and> 2 ^ (128 - 3 * length pos) dvd mn
      \<and> mx = mn + 2 ^ (128 - 3 * length pos)
      \<and> mx \<le> keys_in_ring
      \<and> (if cs = [] then
            sorted_wrt (<) (map fst d) \<and> list_all (\<lambda>(k, _). mn \<le> k \<and> k < mx) d
          else
            length pos \<le> 41
            \<and> list_all well_formed cs
            \<and> map position cs = map (\<lambda>i. pos @ [i]) [0..<num_children]
            \<and> map min_key cs = map (\<lambda>i. mn + i * child_width pos) [0..<num_children]))"

lemma takeWhile_sorted_keys:
  fixes d :: "(nat \<times> 'v) list"
  assumes "sorted_wrt (<) (map fst d)"
  shows "takeWhile (\<lambda>(k, _). k < ub) d = filter (\<lambda>(k, _). k < ub) d"
  using assms
proof (induction d)
  case Nil
  show ?case by simp
next
  case (Cons e d)
  obtain k v where e: "e = (k, v)" by (cases e)
  have later: "\<forall>x \<in> set d. k < fst x" and srt: "sorted_wrt (<) (map fst d)"
    using Cons.prems e by auto
  show ?case
  proof (cases "k < ub")
    case True
    then show ?thesis using Cons.IH [OF srt] e by simp
  next
    case False
    then have "filter (\<lambda>(k, _). k < ub) d = []"
      using later by (auto simp: filter_empty_conv)
    then show ?thesis using False e by simp
  qed
qed

lemma dropWhile_sorted_keys:
  fixes d :: "(nat \<times> 'v) list"
  assumes "sorted_wrt (<) (map fst d)"
  shows "dropWhile (\<lambda>(k, _). k < ub) d = filter (\<lambda>(k, _). ub \<le> k) d"
  using assms
proof (induction d)
  case Nil
  show ?case by simp
next
  case (Cons e d)
  obtain k v where e: "e = (k, v)" by (cases e)
  have later: "\<forall>x \<in> set d. k < fst x" and srt: "sorted_wrt (<) (map fst d)"
    using Cons.prems e by auto
  show ?case
  proof (cases "k < ub")
    case True
    then show ?thesis using Cons.IH [OF srt] e by simp
  next
    case False
    then have "filter (\<lambda>(k, _). ub \<le> k) d = d"
      using later by (auto simp: filter_id_conv)
    then show ?thesis using False e by simp
  qed
qed

lemma InBetween_child_range:
  assumes "lo + 1 < ub" "ub \<le> keys_in_ring" "lo \<le> k" "k < keys_in_ring"
  shows "InBetween k lo (uint256 (int ub - 1)) True = (k < ub)"
proof -
  have "int ub - 1 < 2 ^ 256"
    using assms(2) keys_in_ring_lt_uint256 by simp
  then have u: "uint256 (int ub - 1) = ub - 1"
    using assms(1) by (simp add: uint256_small nat_diff_distrib')
  have "lo < keys_in_ring" using assms by simp
  then show ?thesis
    using assms by (auto simp: u InBetween_def Let_def)
qed

definition child_data :: "nat \<Rightarrow> nat \<Rightarrow> (nat \<times> 'v) list \<Rightarrow> nat \<Rightarrow> (nat \<times> 'v) list" where
  "child_data mn w d i = filter (\<lambda>(k, _). mn + i * w \<le> k \<and> k < mn + Suc i * w) d"

definition child_of ::
  "(string \<Rightarrow> nat) \<Rightarrow> nat \<Rightarrow> nat list \<Rightarrow> nat \<Rightarrow> (nat \<times> 'v) list \<Rightarrow> nat \<Rightarrow> 'v MerkleTree" where
  "child_of sha1 mn pos w d i =
     Rehash sha1 (MerkleTree (mn + i * w) (mn + Suc i * w) 0 (pos @ [i]) [] (child_data mn w d i) None)"

lemma create_loop_sorted:
  assumes "2 \<le> w" "mn + n * w \<le> keys_in_ring"
    and "sorted_wrt (<) (map fst d)"
    and "list_all (\<lambda>(k, _). mn + j * w \<le> k \<and> k < keys_in_ring) d"
  shows "create_loop sha1 pos w [j..<n] (mn + j * w) d
       = (map (child_of sha1 mn pos w d) [j..<n], filter (\<lambda>(k, _). mn + n * w \<le> k) d)"
  using assms
proof (induction "n - j" arbitrary: j d)
  case 0
  then have "n \<le> j" by simp
  then have le: "mn + n * w \<le> mn + j * w" by simp
  have "filter (\<lambda>(k, _). mn + n * w \<le> k) d = d"
    unfolding filter_id_conv
  proof
    fix x assume "x \<in> set d"
    then have "mn + j * w \<le> fst x"
      using "0.prems"(4) by (auto simp: list_all_iff)
    with le have "mn + n * w \<le> fst x"
      by (rule order_trans)
    then show "case x of (k, _) \<Rightarrow> mn + n * w \<le> k"
      by (cases x) simp
  qed
  then show ?case using \<open>n \<le> j\<close> by simp
next
  case (Suc m)
  then have jn: "j < n" by simp
  let ?lo = "mn + j * w"
  let ?ub = "mn + Suc j * w"
  have ub_le: "?ub \<le> keys_in_ring"
  proof -
    have "Suc j * w \<le> n * w" by (rule mult_le_mono1 [OF Suc_leI [OF jn]])
    then show ?thesis using Suc.prems(2) by simp
  qed
  have ub: "(?lo + w) mod 2 ^ 256 = ?ub"
    using ub_le keys_in_ring_lt_uint256 by simp
  have gap: "?lo + 1 < ?ub" using Suc.prems(1) by simp
  let ?in = "\<lambda>(key, _). InBetween key ?lo (uint256 (int ?ub - 1)) True"
  have in_eq: "\<And>x. x \<in> set d \<Longrightarrow> ?in x = (\<lambda>(k, _). k < ?ub) x"
    using Suc.prems(4) InBetween_child_range [OF gap ub_le]
    by (auto simp: list_all_iff)
  have "takeWhile ?in d = takeWhile (\<lambda>(k, _). k < ?ub) d"
    by (rule takeWhile_cong [OF refl]) (rule in_eq)
  then have tw: "takeWhile ?in d = filter (\<lambda>(k, _). k < ?ub) d"
    by (simp only: takeWhile_sorted_keys [OF Suc.prems(3)])
  have "dropWhile ?in d = dropWhile (\<lambda>(k, _). k < ?ub) d"
    by (rule dropWhile_cong [OF refl]) (rule in_eq)
  then have dw: "dropWhile ?in d = filter (\<lambda>(k, _). ?ub \<le> k) d"
    by (simp only: dropWhile_sorted_keys [OF Suc.prems(3)])
  have first: "filter (\<lambda>(k, _). k < ?ub) d = child_data mn w d j"
    using Suc.prems(4) unfolding child_data_def
    by (intro filter_cong) (auto simp: list_all_iff)
  let ?d' = "filter (\<lambda>(k, _). ?ub \<le> k) d"
  have IH: "create_loop sha1 pos w [Suc j..<n] ?ub ?d'
       = (map (child_of sha1 mn pos w ?d') [Suc j..<n], filter (\<lambda>(k, _). mn + n * w \<le> k) ?d')"
  proof (rule Suc.hyps(1) [of "Suc j" ?d'])
    show "m = n - Suc j" using Suc.hyps(2) by simp
    show "2 \<le> w" by (rule Suc.prems(1))
    show "mn + n * w \<le> keys_in_ring" by (rule Suc.prems(2))
    show "sorted_wrt (<) (map fst ?d')"
      using Suc.prems(3) by (simp add: sorted_wrt_map sorted_wrt_filter)
    show "list_all (\<lambda>(k, _). mn + Suc j * w \<le> k \<and> k < keys_in_ring) ?d'"
      using Suc.prems(4) by (auto simp: list_all_iff)
  qed
  have rest: "map (child_of sha1 mn pos w ?d') [Suc j..<n] = map (child_of sha1 mn pos w d) [Suc j..<n]"
  proof (rule map_cong [OF refl])
    fix i assume "i \<in> set [Suc j..<n]"
    then have "Suc j \<le> i" by simp
    then have "Suc j * w \<le> i * w" by (rule mult_le_mono1)
    then have "child_data mn w ?d' i = child_data mn w d i"
      unfolding child_data_def by (auto intro: filter_cong)
    then show "child_of sha1 mn pos w ?d' i = child_of sha1 mn pos w d i"
      by (simp add: child_of_def)
  qed
  have left: "filter (\<lambda>(k, _). mn + n * w \<le> k) ?d' = filter (\<lambda>(k, _). mn + n * w \<le> k) d"
  proof -
    have "Suc j * w \<le> n * w" by (rule mult_le_mono1 [OF Suc_leI [OF jn]])
    then show ?thesis by (auto intro: filter_cong)
  qed
  have unroll: "[j..<n] = j # [Suc j..<n]" using jn by (simp add: upt_rec)
  have "create_loop sha1 pos w (j # [Suc j..<n]) ?lo d
      = (Rehash sha1 (MerkleTree ?lo ?ub 0 (pos @ [j]) [] (takeWhile ?in d) None)
           # fst (create_loop sha1 pos w [Suc j..<n] ?ub (dropWhile ?in d)),
         snd (create_loop sha1 pos w [Suc j..<n] ?ub (dropWhile ?in d)))"
    by (simp only: create_loop.simps Let_def ub case_prod_beta)
  also have "\<dots> = (child_of sha1 mn pos w d j # map (child_of sha1 mn pos w d) [Suc j..<n],
         filter (\<lambda>(k, _). mn + n * w \<le> k) d)"
    by (simp only: tw dw IH first rest left child_of_def fst_conv snd_conv)
  finally show ?case
    by (simp only: unroll list.map)
qed


lemma child_width_ge: "length pos \<le> 41 \<Longrightarrow> 2 \<le> child_width pos"
proof -
  assume "length pos \<le> 41"
  then have "1 \<le> 125 - 3 * length pos" by simp
  then have "(2::nat) ^ 1 \<le> 2 ^ (125 - 3 * length pos)"
    by (rule power_increasing) simp
  then show ?thesis by (simp add: child_width_def)
qed

lemma CreateChildren_leaf:
  assumes deep: "length pos \<le> 41"
    and width: "mx = mn + 2 ^ (128 - 3 * length pos)"
    and top: "mx \<le> keys_in_ring"
    and srt: "sorted_wrt (<) (map fst d)"
    and rng: "list_all (\<lambda>(k, _). mn \<le> k \<and> k < mx) d"
  shows "CreateChildren sha1 (MerkleTree mn mx h pos [] d lk)
       = MerkleTree mn mx h pos (map (child_of sha1 mn pos (child_width pos) d) [0..<num_children]) [] lk"
proof -
  let ?w = "child_width pos"
  have nw: "2 ^ (128 - 3 * length pos) = num_children * ?w"
    using deep by (rule node_width)
  have mx: "mx = mn + num_children * ?w" using width nw by simp
  have "int mx - int mn = int (num_children * ?w)" using mx by simp
  moreover have "int (num_children * ?w) < 2 ^ 256"
  proof -
    have "num_children * ?w < 2 ^ 256"
      using top mx keys_in_ring_lt_uint256 by linarith
    then show ?thesis
      by (simp only: of_nat_less_numeral_power_cancel_iff)
  qed
  moreover have "0 < num_children * ?w"
    using child_width_pos [of pos] by (simp add: num_children_def)
  ultimately have range: "key_minus mx mn = num_children * ?w"
    by (simp add: key_minus_def uint256_small del: of_nat_mult)
  have step: "key_minus mx mn div num_children = ?w"
    unfolding range by (simp add: num_children_def)
  have all: "list_all (\<lambda>(k, _). mn + 0 * ?w \<le> k \<and> k < keys_in_ring) d"
    using rng top by (auto simp: list_all_iff)
  have loop: "create_loop sha1 pos ?w [0..<num_children] (mn + 0 * ?w) d
       = (map (child_of sha1 mn pos ?w d) [0..<num_children],
          filter (\<lambda>(k, _). mn + num_children * ?w \<le> k) d)"
    using create_loop_sorted [OF child_width_ge [OF deep] _ srt all] top mx by simp
  have "filter (\<lambda>(k, _). mn + num_children * ?w \<le> k) d = []"
    using rng mx by (auto simp: filter_empty_conv list_all_iff)
  then show ?thesis
    using loop by (simp add: CreateChildren_def step Let_def)
qed

lemma child_of_eq:
  "child_of sha1 mn pos w d i =
     MerkleTree (mn + i * w) (mn + Suc i * w) (node_hash sha1 [] (child_data mn w d i))
       (pos @ [i]) [] (child_data mn w d i) None"
  by (simp add: child_of_def Rehash_eq)

lemma well_formed_child_of:
  assumes deep: "length pos \<le> 41"
    and aligned: "2 ^ (128 - 3 * length pos) dvd mn"
    and top: "mn + 2 ^ (128 - 3 * length pos) \<le> keys_in_ring"
    and srt: "sorted_wrt (<) (map fst d)"
    and i: "i < num_children"
  shows "well_formed (child_of sha1 mn pos (child_width pos) d i)"
proof -
  let ?w = "child_width pos"
  have nw: "2 ^ (128 - 3 * length pos) = num_children * ?w"
    using deep by (rule node_width)
  have w: "2 ^ (128 - 3 * length (pos @ [i])) = ?w"
  proof -
    have "128 - 3 * length (pos @ [i]) = 125 - 3 * length pos" by simp
    then show ?thesis by (simp only: child_width_def)
  qed
  have "?w dvd mn" using aligned unfolding nw by (metis dvd_mult_right)
  then have al: "?w dvd mn + i * ?w" by simp
  have "Suc i * ?w \<le> num_children * ?w"
    by (rule mult_le_mono1 [OF Suc_leI [OF i]])
  then have tp: "mn + Suc i * ?w \<le> keys_in_ring" using top nw by simp
  have s: "sorted_wrt (<) (map fst (child_data mn ?w d i))"
    using srt by (simp add: child_data_def sorted_wrt_map sorted_wrt_filter)
  have r: "list_all (\<lambda>(k, _). mn + i * ?w \<le> k \<and> k < mn + Suc i * ?w) (child_data mn ?w d i)"
    by (auto simp: child_data_def list_all_iff)
  have d: "length (pos @ [i]) \<le> 42" using deep by simp
  show ?thesis
    unfolding child_of_eq well_formed.simps w
    using d al tp s r by simp
qed

lemma set_map_insert: "set (map_insert (k, v) d) \<subseteq> insert (k, v) (set d)"
  by (induction d) (auto split: if_splits)

lemma keys_map_insert: "fst ` set (map_insert (k, v) d) \<subseteq> insert k (fst ` set d)"
  using set_map_insert [of k v d] by force

lemma sorted_map_insert:
  assumes "sorted_wrt (<) (map fst d)"
  shows "sorted_wrt (<) (map fst (map_insert (k, v) d))"
  using assms
proof (induction d)
  case Nil
  then show ?case by simp
next
  case (Cons e d)
  obtain k' v' where e: "e = (k', v')" by (cases e)
  have later: "\<forall>x \<in> set d. k' < fst x" and srt: "sorted_wrt (<) (map fst d)"
    using Cons.prems e by auto
  consider "k < k'" | "k = k'" | "k' < k" by (meson nat_neq_iff)
  then show ?case
  proof cases
    case 1
    then have "\<forall>x \<in> set d. k < fst x" using later by auto
    then show ?thesis using 1 e Cons.prems by simp
  next
    case 2
    then show ?thesis using e Cons.prems by simp
  next
    case 3
    have "\<forall>x \<in> set (map_insert (k, v) d). k' < fst x"
    proof
      fix x assume "x \<in> set (map_insert (k, v) d)"
      then have "fst x \<in> insert k (fst ` set d)"
        using keys_map_insert [of k v d] by blast
      then show "k' < fst x" using later 3 by auto
    qed
    then show ?thesis using 3 e Cons.IH [OF srt] by simp
  qed
qed

lemma sorted_keys_length:
  fixes d :: "(nat \<times> 'v) list"
  assumes "sorted_wrt (<) (map fst d)" "list_all (\<lambda>(k, _). mn \<le> k \<and> k < mn + r) d"
  shows "length d \<le> r"
proof -
  have "distinct (map fst d)"
    using assms(1) by (simp add: strict_sorted_iff [symmetric] sorted_wrt_map) (metis distinct_map sorted_wrt_map strict_sorted_iff)
  then have "length d = card (fst ` set d)"
    by (metis distinct_card length_map set_map)
  also have "fst ` set d \<subseteq> {mn..<mn + r}"
    using assms(2) by (auto simp: list_all_iff)
  then have "card (fst ` set d) \<le> card {mn..<mn + r}"
    by (rule card_mono [rotated]) simp
  finally show ?thesis by simp
qed


lemma well_formed_fields:
  assumes "well_formed t"
  shows "length (position t) \<le> 42"
    and "2 ^ (128 - 3 * length (position t)) dvd min_key t"
    and "max_key t = min_key t + 2 ^ (128 - 3 * length (position t))"
    and "max_key t \<le> keys_in_ring"
  using assms by (cases t; simp)+

lemma CreateChildren_fields:
  "min_key (CreateChildren sha1 t) = min_key t"
  "max_key (CreateChildren sha1 t) = max_key t"
  "position (CreateChildren sha1 t) = position t"
  by (cases t; simp add: CreateChildren_def Let_def split: prod.splits)+

lemma Rehash_fields:
  "min_key (Rehash sha1 t) = min_key t"
  "max_key (Rehash sha1 t) = max_key t"
  "position (Rehash sha1 t) = position t"
  "child_nodes (Rehash sha1 t) = child_nodes t"
  "data (Rehash sha1 t) = data t"
  "largest_key (Rehash sha1 t) = largest_key t"
  by (cases t; simp add: Rehash_eq)+

lemma Insert_fields:
  "min_key (snd (Insert sha1 (k, v) t)) = min_key t"
  "max_key (snd (Insert sha1 (k, v) t)) = max_key t"
  "position (snd (Insert sha1 (k, v) t)) = position t"
  by (cases t; simp add: Let_def Rehash_fields ToInternal_def CreateChildren_fields
        split: sum.splits prod.splits option.splits)+

lemma div_range:
  fixes w :: nat
  assumes "0 < w" "mn \<le> k"
  shows "mn + ((k - mn) div w) * w \<le> k" and "k < mn + Suc ((k - mn) div w) * w"
proof -
  have "(k - mn) div w * w \<le> k - mn" by simp
  then show "mn + ((k - mn) div w) * w \<le> k" using assms(2) by linarith
  have "k - mn < w + (k - mn) div w * w"
    using assms(1) by (rule dividend_less_div_times)
  then show "k < mn + Suc ((k - mn) div w) * w" using assms(2) by simp
qed

lemma map_update_same:
  assumes "i < length xs" "f y = f (xs ! i)"
  shows "map f (xs[i := y]) = map f xs"
proof -
  have "map f (xs[i := y]) = (map f xs)[i := map f xs ! i]"
    using assms by (simp add: map_update)
  then show ?thesis by simp
qed

lemma Insert_well_formed:
  assumes "well_formed t" "min_key t \<le> k" "k < max_key t" "Insert sha1 (k, v) t = (None, t')"
  shows "well_formed t' \<and> Lookup t' k = Inr v"
  using assms
proof (induction t arbitrary: t')
  case (MerkleTree mn mx h pos cs d lk)
  define lk' where "lk' = (if (lk \<noteq> None \<and> k > the lk) \<or> lk = None then Some k else lk)"
  let ?w = "child_width pos"
  have len: "length pos \<le> 42"
    and aligned: "2 ^ (128 - 3 * length pos) dvd mn"
    and width: "mx = mn + 2 ^ (128 - 3 * length pos)"
    and top: "mx \<le> keys_in_ring"
    using MerkleTree.prems(1) by simp_all
  have lo: "mn \<le> k" and hi: "k < mx"
    using MerkleTree.prems(2,3) by simp_all
  show ?case
  proof (cases "cs = []")
    case leaf: True
    have srt: "sorted_wrt (<) (map fst d)" and rng: "list_all (\<lambda>(k, _). mn \<le> k \<and> k < mx) d"
      using MerkleTree.prems(1) leaf by auto
    have absent: "\<not> map_contains k d"
      using MerkleTree.prems(4) leaf by (auto simp: Let_def split: if_splits)
    let ?d' = "map_insert (k, v) d"
    have srt': "sorted_wrt (<) (map fst ?d')"
      using srt by (rule sorted_map_insert)
    have rng': "list_all (\<lambda>(k, _). mn \<le> k \<and> k < mx) ?d'"
      using rng lo hi set_map_insert [of k v d] by (auto simp: list_all_iff)
    have found: "map_of ?d' k = Some v"
      using absent by (rule map_of_map_insert)
    show ?thesis
    proof (cases "length ?d' > num_children")
      case False
      then have "t' = MerkleTree mn mx (node_hash sha1 [] ?d') pos [] ?d' lk'"
        using MerkleTree.prems(4) leaf absent by (simp add: Let_def Rehash_eq lk'_def)
      then show ?thesis
        using len aligned width top srt' rng' found by simp
    next
      case split: True
      have deep: "length pos \<le> 41"
      proof (rule ccontr)
        assume "\<not> length pos \<le> 41"
        then have "length pos = 42" using len by simp
        then have "mx = mn + 4" using width by simp
        then have "length ?d' \<le> 4"
          using sorted_keys_length [OF srt', of mn 4] rng' by simp
        then show False using split by (simp add: num_children_def)
      qed
      let ?cs = "map (child_of sha1 mn pos ?w ?d') [0..<num_children]"
      have created: "CreateChildren sha1 (MerkleTree mn mx h pos [] ?d' lk')
           = MerkleTree mn mx h pos ?cs [] lk'"
        using CreateChildren_leaf [OF deep width top srt' rng'] .
      have t': "t' = MerkleTree mn mx (node_hash sha1 ?cs []) pos ?cs [] lk'"
        using MerkleTree.prems(4) leaf absent split created
        by (simp add: Let_def Rehash_eq lk'_def ToInternal_def)
      have ne: "?cs \<noteq> []" by (simp add: num_children_def)
      have top': "mn + 2 ^ (128 - 3 * length pos) \<le> keys_in_ring"
        using top width by simp
      have all: "list_all well_formed ?cs"
        using well_formed_child_of [OF deep aligned top' srt']
        by (simp add: list_all_iff)
      have posi: "map position ?cs = map (\<lambda>i. pos @ [i]) [0..<num_children]"
        by (simp add: child_of_eq)
      have mins: "map min_key ?cs = map (\<lambda>i. mn + i * ?w) [0..<num_children]"
        by (simp add: child_of_eq)
      have wf': "well_formed t'"
        unfolding t' well_formed.simps
        using len aligned width top ne deep all posi mins by simp
      let ?i = "(k - mn) div ?w"
      have idx: "child_index mn mx pos k = Inr ?i" and small: "?i < num_children"
        using ChildNum_in_range(1) [OF deep aligned width lo hi, of h cs d lk]
          ChildNum_in_range(2) [OF deep aligned width lo hi]
        by (simp_all add: ChildNum_eq)
      have nth: "?cs ! ?i = child_of sha1 mn pos ?w ?d' ?i"
        using small by simp
      have "mn + ?i * ?w \<le> k \<and> k < mn + Suc ?i * ?w"
        using div_range [OF child_width_pos lo] by blast
      then have "map_of (child_data mn ?w ?d' ?i) k = Some v"
        unfolding child_data_def using found by (intro map_of_filter_in) auto
      then have "Lookup (child_of sha1 mn pos ?w ?d' ?i) k = Inr v"
        by (simp add: child_of_eq)
      then have "Lookup t' k = Inr v"
        unfolding t' using ne idx small nth by (simp add: ChildNum_eq)
      then show ?thesis using wf' by simp
    qed
  next
    case internal: False
    have deep: "length pos \<le> 41"
      and all: "list_all well_formed cs"
      and posi: "map position cs = map (\<lambda>i. pos @ [i]) [0..<num_children]"
      and mins: "map min_key cs = map (\<lambda>i. mn + i * ?w) [0..<num_children]"
      using MerkleTree.prems(1) internal by auto
    have lcs: "length cs = num_children"
      using posi by (metis length_map length_upt minus_nat.diff_0)
    let ?i = "(k - mn) div ?w"
    have idx: "child_index mn mx pos k = Inr ?i" and small: "?i < num_children"
      using ChildNum_in_range(1) [OF deep aligned width lo hi, of h cs d lk]
        ChildNum_in_range(2) [OF deep aligned width lo hi]
      by (simp_all add: ChildNum_eq)
    let ?c = "cs ! ?i"
    have mem: "?c \<in> set cs" using small lcs by simp
    have wc: "well_formed ?c" using all mem by (simp add: list_all_iff)
    have pc: "position ?c = pos @ [?i]"
    proof -
      have "position ?c = map position cs ! ?i" using small lcs by simp
      then show ?thesis unfolding posi using small by simp
    qed
    have mc: "min_key ?c = mn + ?i * ?w"
    proof -
      have "min_key ?c = map min_key cs ! ?i" using small lcs by simp
      then show ?thesis unfolding mins using small by simp
    qed
    have "128 - 3 * length (pos @ [?i]) = 125 - 3 * length pos" by simp
    then have "max_key ?c = mn + ?i * ?w + ?w"
      using well_formed_fields(3) [OF wc] pc mc by (simp add: child_width_def)
    then have inc: "min_key ?c \<le> k" "k < max_key ?c"
      using div_range [OF child_width_pos lo, of pos] mc by simp_all
    obtain r c' where r: "Insert sha1 (k, v) ?c = (r, c')" by (cases "Insert sha1 (k, v) ?c")
    have rnone: "r = None"
      using MerkleTree.prems(4) internal idx small lcs r
      by (auto simp: Let_def ChildNum_eq split: option.splits)
    have t': "t' = MerkleTree mn mx (node_hash sha1 (cs[?i := c']) d) pos (cs[?i := c']) d lk'"
      using MerkleTree.prems(4) internal idx small lcs r rnone
      by (simp add: Let_def ChildNum_eq Rehash_eq lk'_def)
    have IH: "well_formed c' \<and> Lookup c' k = Inr v"
      using MerkleTree.IH [OF mem wc inc] r rnone by simp
    have same: "position c' = position ?c" "min_key c' = min_key ?c"
      using Insert_fields [of sha1 k v ?c] r by simp_all
    have il: "?i < length cs" using small lcs by simp
    have posi': "map position (cs[?i := c']) = map (\<lambda>i. pos @ [i]) [0..<num_children]"
      using map_update_same [OF il same(1)] posi by simp
    have mins': "map min_key (cs[?i := c']) = map (\<lambda>i. mn + i * ?w) [0..<num_children]"
      using map_update_same [OF il same(2)] mins by simp
    have all': "list_all well_formed (cs[?i := c'])"
      using all IH set_update_subset_insert [of cs ?i c'] by (auto simp: list_all_iff)
    have ne: "cs[?i := c'] \<noteq> []" using internal by simp
    have wf': "well_formed t'"
      unfolding t' well_formed.simps
      using len aligned width top ne deep all' posi' mins' by simp
    have "Lookup t' k = Inr v"
      unfolding t' using ne idx small lcs IH by (simp add: ChildNum_eq)
    then show ?thesis using wf' by simp
  qed
qed


lemma well_formed_split:
  assumes deep: "length pos \<le> 41"
    and aligned: "2 ^ (128 - 3 * length pos) dvd mn"
    and width: "mx = mn + 2 ^ (128 - 3 * length pos)"
    and top: "mx \<le> keys_in_ring"
    and srt: "sorted_wrt (<) (map fst d)"
  shows "well_formed
     (MerkleTree mn mx h pos (map (child_of sha1 mn pos (child_width pos) d) [0..<num_children]) d' lk)"
proof -
  let ?cs = "map (child_of sha1 mn pos (child_width pos) d) [0..<num_children]"
  have ne: "?cs \<noteq> []" by (simp add: num_children_def)
  have top': "mn + 2 ^ (128 - 3 * length pos) \<le> keys_in_ring"
    using top width by simp
  have all: "list_all well_formed ?cs"
    using well_formed_child_of [OF deep aligned top' srt]
    by (simp add: list_all_iff)
  have posi: "map position ?cs = map (\<lambda>i. pos @ [i]) [0..<num_children]"
    by (simp add: child_of_eq)
  have mins: "map min_key ?cs = map (\<lambda>i. mn + i * child_width pos) [0..<num_children]"
    by (simp add: child_of_eq)
  have len: "length pos \<le> 42" using deep by simp
  show ?thesis
    unfolding well_formed.simps
    using len aligned width top ne deep all posi mins by simp
qed

lemma MerkleTree_new_eq:
  "MerkleTree_new sha1 =
     MerkleTree 0 keys_in_ring 0 []
       (map (child_of sha1 0 [] (child_width []) []) [0..<num_children]) [] None"
  unfolding MerkleTree_new_def
  by (rule CreateChildren_leaf) (simp_all add: keys_in_ring_pow2)

lemma well_formed_new: "well_formed (MerkleTree_new sha1 :: 'v MerkleTree)"
  unfolding MerkleTree_new_eq
  by (rule well_formed_split) (simp_all add: keys_in_ring_pow2)

lemma Contains_total:
  assumes "well_formed t" "min_key t \<le> k" "k < max_key t"
  shows "\<exists>b. Contains t k = Inr b"
  using assms
proof (induction t)
  case (MerkleTree mn mx h pos cs d lk)
  let ?w = "child_width pos"
  have aligned: "2 ^ (128 - 3 * length pos) dvd mn"
    and width: "mx = mn + 2 ^ (128 - 3 * length pos)"
    using MerkleTree.prems(1) by simp_all
  have lo: "mn \<le> k" and hi: "k < mx"
    using MerkleTree.prems(2,3) by simp_all
  show ?case
  proof (cases "cs = []")
    case True
    then show ?thesis by simp
  next
    case internal: False
    have deep: "length pos \<le> 41"
      and all: "list_all well_formed cs"
      and posi: "map position cs = map (\<lambda>i. pos @ [i]) [0..<num_children]"
      and mins: "map min_key cs = map (\<lambda>i. mn + i * ?w) [0..<num_children]"
      using MerkleTree.prems(1) internal by auto
    have lcs: "length cs = num_children"
      using posi by (metis length_map length_upt minus_nat.diff_0)
    let ?i = "(k - mn) div ?w"
    have idx: "child_index mn mx pos k = Inr ?i" and small: "?i < num_children"
      using ChildNum_in_range(1) [OF deep aligned width lo hi, of h cs d lk]
        ChildNum_in_range(2) [OF deep aligned width lo hi]
      by (simp_all add: ChildNum_eq)
    let ?c = "cs ! ?i"
    have mem: "?c \<in> set cs" using small lcs by simp
    have wc: "well_formed ?c" using all mem by (simp add: list_all_iff)
    have pc: "position ?c = pos @ [?i]"
    proof -
      have "position ?c = map position cs ! ?i" using small lcs by simp
      then show ?thesis unfolding posi using small by simp
    qed
    have mc: "min_key ?c = mn + ?i * ?w"
    proof -
      have "min_key ?c = map min_key cs ! ?i" using small lcs by simp
      then show ?thesis unfolding mins using small by simp
    qed
    have "128 - 3 * length (pos @ [?i]) = 125 - 3 * length pos" by simp
    then have "max_key ?c = mn + ?i * ?w + ?w"
      using well_formed_fields(3) [OF wc] pc mc by (simp add: child_width_def)
    then have inc: "min_key ?c \<le> k" "k < max_key ?c"
      using div_range [OF child_width_pos lo, of pos] mc by simp_all
    show ?thesis
      using MerkleTree.IH [OF mem wc inc] internal idx small lcs
      by (simp add: ChildNum_eq)
  qed
qed

lemma Update_fields:
  assumes "Update sha1 (k, v) t = Inr t'"
  shows "min_key t' = min_key t" "max_key t' = max_key t" "position t' = position t"
  using assms
  by (cases t; auto simp: Rehash_eq split: sum.splits if_splits)+

lemma Delete_fields:
  assumes "Delete sha1 k t = Inr t'"
  shows "min_key t' = min_key t" "max_key t' = max_key t" "position t' = position t"
  using assms
  by (cases t; auto simp: Rehash_eq split: sum.splits if_splits)+

lemma Update_well_formed:
  assumes "well_formed t" "Update sha1 (k, v) t = Inr t'"
  shows "well_formed t'"
  using assms
proof (induction t arbitrary: t')
  case (MerkleTree mn mx h pos cs d lk)
  show ?case
  proof (cases "cs = []")
    case True
    have keys: "map fst (map_assign k v d) = map fst d"
      by (induction d) (auto simp: map_assign_def)
    have "list_all (\<lambda>(k, _). mn \<le> k \<and> k < mx) d \<Longrightarrow>
          list_all (\<lambda>(k, _). mn \<le> k \<and> k < mx) (map_assign k v d)"
      by (induction d) (auto simp: map_assign_def split: if_splits)
    then show ?thesis
      using MerkleTree.prems True keys
      by (auto simp: Rehash_eq split: if_splits)
  next
    case internal: False
    then obtain i c' where i: "child_index mn mx pos k = Inr i" "i < length cs"
      and c': "Update sha1 (k, v) (cs ! i) = Inr c'"
      and t': "t' = MerkleTree mn mx (node_hash sha1 (cs[i := c']) d) pos (cs[i := c']) d lk"
      using MerkleTree.prems(2)
      by (auto simp: ChildNum_eq Rehash_eq split: sum.splits if_splits)
    have all: "list_all well_formed cs" using MerkleTree.prems(1) internal by auto
    have mem: "cs ! i \<in> set cs" using i(2) by simp
    have wc': "well_formed c'"
      using MerkleTree.IH [OF mem _ c'] all mem by (simp add: list_all_iff)
    have all': "list_all well_formed (cs[i := c'])"
      using all wc' set_update_subset_insert [of cs i c'] by (auto simp: list_all_iff)
    have "map position (cs[i := c']) = map position cs" "map min_key (cs[i := c']) = map min_key cs"
      using map_update_same [OF i(2), of position c'] map_update_same [OF i(2), of min_key c']
        Update_fields [OF c'] by simp_all
    then show ?thesis
      unfolding t' using MerkleTree.prems(1) internal all' by auto
  qed
qed

lemma Delete_well_formed:
  assumes "well_formed t" "Delete sha1 k t = Inr t'"
  shows "well_formed t'"
  using assms
proof (induction t arbitrary: t')
  case (MerkleTree mn mx h pos cs d lk)
  show ?case
  proof (cases "cs = []")
    case True
    have srt: "sorted_wrt (<) (map fst d) \<Longrightarrow> sorted_wrt (<) (map fst (map_erase k d))"
      by (simp add: map_erase_def sorted_wrt_map sorted_wrt_filter)
    have "list_all (\<lambda>(k, _). mn \<le> k \<and> k < mx) d \<Longrightarrow>
          list_all (\<lambda>(k, _). mn \<le> k \<and> k < mx) (map_erase k d)"
      by (auto simp: map_erase_def list_all_iff)
    then show ?thesis
      using MerkleTree.prems True srt
      by (auto simp: Rehash_eq split: if_splits)
  next
    case internal: False
    then obtain i c' lk' where i: "child_index mn mx pos k = Inr i" "i < length cs"
      and c': "Delete sha1 k (cs ! i) = Inr c'"
      and t': "t' = MerkleTree mn mx (node_hash sha1 (cs[i := c']) d) pos (cs[i := c']) d lk'"
      using MerkleTree.prems(2)
      by (auto simp: ChildNum_eq Rehash_eq split: sum.splits if_splits)
    have all: "list_all well_formed cs" using MerkleTree.prems(1) internal by auto
    have mem: "cs ! i \<in> set cs" using i(2) by simp
    have wc': "well_formed c'"
      using MerkleTree.IH [OF mem _ c'] all mem by (simp add: list_all_iff)
    have all': "list_all well_formed (cs[i := c'])"
      using all wc' set_update_subset_insert [of cs i c'] by (auto simp: list_all_iff)
    have "map position (cs[i := c']) = map position cs" "map min_key (cs[i := c']) = map min_key cs"
      using map_update_same [OF i(2), of position c'] map_update_same [OF i(2), of min_key c']
        Delete_fields [OF c'] by simp_all
    then show ?thesis
      unfolding t' using MerkleTree.prems(1) internal all' by auto
  qed
qed


subsection \<open>The store contract\<close>

text \<open>
  Claim C5. On every well-formed tree (the empty tree is, and \<open>Insert\<close>, \<open>Update\<close> and
  \<open>Delete\<close> keep it so) and every key of its range: when \<open>Insert(k, v)\<close> returns
  normally, \<open>Lookup(k)\<close> on the resulting tree returns \<open>v\<close>, and \<open>Delete(k)\<close> on it
  succeeds and leaves a tree on which \<open>Lookup(k)\<close> raises; \<open>Contains(k)\<close> never fails,
  \<open>Insert(k, v)\<close> raises \<open>Key already exists\<close> when \<open>k\<close> is present, and when \<open>k\<close> is
  absent \<open>Insert\<close> succeeds while \<open>Update(k, v)\<close> and \<open>Delete(k)\<close> raise.
\<close>

theorem MerkleTree_store_contract:
  assumes "well_formed t" and "min_key t \<le> k" and "k < max_key t"
  shows "(fst (Insert sha1 (k, v) t) = None \<longrightarrow>
            Lookup (snd (Insert sha1 (k, v) t)) k = Inr v
          \<and> well_formed (snd (Insert sha1 (k, v) t))
          \<and> (\<exists>t''. Delete sha1 k (snd (Insert sha1 (k, v) t)) = Inr t''
                 \<and> well_formed t'' \<and> Lookup t'' k = Inl KeyDoesNotExist))
       \<and> (\<exists>present. Contains t k = Inr present
            \<and> (present \<longrightarrow> fst (Insert sha1 (k, v) t) = Some KeyAlreadyExists)
            \<and> (\<not> present \<longrightarrow> fst (Insert sha1 (k, v) t) = None
                  \<and> Update sha1 (k, v) t = Inl KeyDoesNotExist
                  \<and> Delete sha1 k t = Inl KeyDoesNotExist))
       \<and> (\<forall>t'. Update sha1 (k, v) t = Inr t' \<longrightarrow> well_formed t')
       \<and> (\<forall>t'. Delete sha1 k t = Inr t' \<longrightarrow> well_formed t')
       \<and> well_formed (MerkleTree_new sha1 :: 'v MerkleTree)
       \<and> min_key (MerkleTree_new sha1 :: 'v MerkleTree) = 0
       \<and> max_key (MerkleTree_new sha1 :: 'v MerkleTree) = keys_in_ring"
proof -
  have first: "Lookup (snd (Insert sha1 (k, v) t)) k = Inr v
          \<and> well_formed (snd (Insert sha1 (k, v) t))
          \<and> (\<exists>t''. Delete sha1 k (snd (Insert sha1 (k, v) t)) = Inr t''
                 \<and> well_formed t'' \<and> Lookup t'' k = Inl KeyDoesNotExist)"
    if ok: "fst (Insert sha1 (k, v) t) = None"
  proof -
    let ?t' = "snd (Insert sha1 (k, v) t)"
    have "Insert sha1 (k, v) t = (None, ?t')"
      using ok by (simp add: prod_eq_iff)
    then have ins: "well_formed ?t' \<and> Lookup ?t' k = Inr v"
      by (rule Insert_well_formed [OF assms])
    then obtain t'' where del: "Delete sha1 k ?t' = Inr t''" "Lookup t'' k = Inl KeyDoesNotExist"
      using Delete_after_Lookup [of ?t' k v sha1] by blast
    have "well_formed t''"
      using Delete_well_formed [OF _ del(1)] ins by blast
    then show ?thesis using ins del by blast
  qed
  obtain present where present: "Contains t k = Inr present"
    using Contains_total [OF assms] by blast
  have second: "present \<longrightarrow> fst (Insert sha1 (k, v) t) = Some KeyAlreadyExists"
    using present Insert_present [of t k sha1 v] by simp
  have third: "\<not> present \<longrightarrow> fst (Insert sha1 (k, v) t) = None
                  \<and> Update sha1 (k, v) t = Inl KeyDoesNotExist
                  \<and> Delete sha1 k t = Inl KeyDoesNotExist"
    using present Insert_absent [of t k sha1 v] Update_absent [of t k sha1 v]
      Delete_absent [of t k sha1] by simp
  have fields: "min_key (MerkleTree_new sha1 :: 'v MerkleTree) = 0"
    "max_key (MerkleTree_new sha1 :: 'v MerkleTree) = keys_in_ring"
    by (simp_all add: MerkleTree_new_eq)
  show ?thesis
    using first present second third Update_well_formed [OF assms(1)]
      Delete_well_formed [OF assms(1)] well_formed_new fields
    by blast
qed

theorem MerkleTree_store_contract_witness:
  "fst (Insert (\<lambda>s. Suc (length s)) (5, ''world'') (MerkleTree_new (\<lambda>s. Suc (length s)))) = None
   \<and> Lookup (snd (Insert (\<lambda>s. Suc (length s)) (5, ''world'') (MerkleTree_new (\<lambda>s. Suc (length s))))) 5
       = Inr ''world''
   \<and> Contains (MerkleTree_new (\<lambda>s. Suc (length s)) :: string MerkleTree) 5 = Inr False
   \<and> Update (\<lambda>s. Suc (length s)) (5, ''world'') (MerkleTree_new (\<lambda>s. Suc (length s)))
       = Inl KeyDoesNotExist
   \<and> Delete (\<lambda>s. Suc (length s)) 5 (MerkleTree_new (\<lambda>s. Suc (length s)) :: string MerkleTree)
       = Inl KeyDoesNotExist"
proof -
  let ?sha = "\<lambda>s :: string. Suc (length s)"
  let ?t = "MerkleTree_new ?sha :: string MerkleTree"
  have wf: "well_formed ?t" by (rule well_formed_new)
  have lo: "min_key ?t \<le> 5" and hi: "5 < max_key ?t"
    by (simp_all add: MerkleTree_new_eq keys_in_ring_def)
  have idx: "child_index 0 keys_in_ring [] 5 = Inr 0"
    by (simp add: child_index_def ChildNum_def GetDepth_def keys_in_ring_def num_children_def
        drop_bit_eq_div and_seven)
  have absent: "Contains ?t 5 = Inr False"
    by (simp add: MerkleTree_new_eq ChildNum_eq idx num_children_def child_of_eq child_data_def
        map_contains_def upt_rec)
  show ?thesis
    using MerkleTree_store_contract [OF wf lo hi, of ?sha "''world''"] absent
    by auto
qed


subsection \<open>Hashes do not read the values\<close>

text \<open>
  \<open>hashes_current\<close>: every node carries the hash \<open>Rehash\<close> gives it, as after the
  constructor and after every \<open>Insert\<close>, \<open>Update\<close> and \<open>Delete\<close>. \<open>same_keys\<close>: two
  trees have the same nodes, at the same positions and with the same ranges, and the
  same keys in the data of each node; the values, whose types may differ, are not
  compared. \<open>same_hashes\<close>: corresponding nodes carry the same hash.
\<close>

fun hashes_current :: "(string \<Rightarrow> nat) \<Rightarrow> 'v MerkleTree \<Rightarrow> bool" where
  "hashes_current sha1 (MerkleTree mn mx h pos cs d lk) =
     (h = hash (Rehash sha1 (MerkleTree mn mx h pos cs d lk))
      \<and> list_all (hashes_current sha1) cs)"

fun same_keys :: "'v MerkleTree \<Rightarrow> 'w MerkleTree \<Rightarrow> bool" where
  "same_keys (MerkleTree mn mx h pos cs d lk) (MerkleTree mn' mx' h' pos' cs' d' lk') =
     (mn = mn' \<and> mx = mx' \<and> pos = pos' \<and> map fst d = map fst d'
      \<and> list_all2 same_keys cs cs')"

fun same_hashes :: "'v MerkleTree \<Rightarrow> 'w MerkleTree \<Rightarrow> bool" where
  "same_hashes (MerkleTree mn mx h pos cs d lk) (MerkleTree mn' mx' h' pos' cs' d' lk') =
     (h = h' \<and> list_all2 same_hashes cs cs')"

lemma same_hashes_hash: "same_hashes t1 t2 \<Longrightarrow> hash t1 = hash t2"
  by (cases t1; cases t2) simp

lemma node_hash_keys:
  fixes cs :: "'v MerkleTree list" and cs' :: "'w MerkleTree list"
  assumes "map hash cs = map hash cs'" "map fst d = map fst d'"
  shows "node_hash sha1 cs d = node_hash sha1 cs' d'"
proof -
  have "map (\<lambda>node. IntToHexStr (hash node)) cs = map IntToHexStr (map hash cs)"
    "map (\<lambda>node. IntToHexStr (hash node)) cs' = map IntToHexStr (map hash cs')"
    by (simp_all add: comp_def)
  then have child_strings:
    "map (\<lambda>node. IntToHexStr (hash node)) cs = map (\<lambda>node. IntToHexStr (hash node)) cs'"
    using assms(1) by simp
  have "map (\<lambda>(key, _). IntToHexStr key) d = map IntToHexStr (map fst d)"
    "map (\<lambda>(key, _). IntToHexStr key) d' = map IntToHexStr (map fst d')"
    by (simp_all add: case_prod_unfold comp_def)
  then have key_strings:
    "map (\<lambda>(key, _). IntToHexStr key) d = map (\<lambda>(key, _). IntToHexStr key) d'"
    using assms(2) by simp
  have "(cs = []) = (cs' = [])"
    using assms(1) by (metis map_is_Nil_conv)
  moreover have "(d = []) = (d' = [])"
    using assms(2) by (metis map_is_Nil_conv)
  ultimately show ?thesis
    unfolding node_hash_def child_strings key_strings by simp
qed

lemma same_keys_same_hashes:
  assumes "hashes_current sha1 t1" "hashes_current sha1 t2" "same_keys t1 t2"
  shows "same_hashes t1 t2"
  using assms
proof (induction t1 arbitrary: t2)
  case (MerkleTree mn mx h pos cs d lk)
  obtain mn' mx' h' pos' cs' d' lk' where t2: "t2 = MerkleTree mn' mx' h' pos' cs' d' lk'"
    by (cases t2)
  have keys: "map fst d = map fst d'" and rel: "list_all2 same_keys cs cs'"
    using MerkleTree.prems(3) t2 by simp_all
  have cur: "list_all (hashes_current sha1) cs" "list_all (hashes_current sha1) cs'"
    using MerkleTree.prems(1,2) t2 by simp_all
  have children: "list_all2 same_hashes cs cs'"
    using rel cur MerkleTree.IH
  proof (induction cs cs' rule: list_all2_induct)
    case Nil
    then show ?case by simp
  next
    case (Cons c cs c' cs')
    have "same_hashes c c'"
      using Cons.prems(3) [of c c'] Cons.prems(1,2) Cons.hyps(1) by simp
    moreover have "list_all2 same_hashes cs cs'"
      using Cons.IH Cons.prems by simp
    ultimately show ?case by simp
  qed
  then have "list_all2 (\<lambda>c c'. hash c = hash c') cs cs'"
    by (rule list_all2_mono) (rule same_hashes_hash)
  then have "map hash cs = map hash cs'"
    by (simp add: list_all2_conv_all_nth list_eq_iff_nth_eq)
  then have "node_hash sha1 cs d = node_hash sha1 cs' d'"
    using keys by (rule node_hash_keys)
  then show ?case
    using MerkleTree.prems(1,2) t2 children by (simp add: Rehash_eq)
qed


text \<open>
  The two cases of \<open>Insert\<close>, with the new value of the largest-key cache named.
\<close>

definition new_largest :: "nat option \<Rightarrow> nat \<Rightarrow> nat option" where
  "new_largest lk k = (if (lk \<noteq> None \<and> k > the lk) \<or> lk = None then Some k else lk)"

lemma Insert_leaf:
  "Insert sha1 (k, v) (MerkleTree mn mx h pos [] d lk) =
     (if map_contains k d then (Some KeyAlreadyExists, MerkleTree mn mx h pos [] d (new_largest lk k))
      else if length (map_insert (k, v) d) > num_children
        then (None, Rehash sha1 (ToInternal sha1 (MerkleTree mn mx h pos [] (map_insert (k, v) d) (new_largest lk k))))
        else (None, Rehash sha1 (MerkleTree mn mx h pos [] (map_insert (k, v) d) (new_largest lk k))))"
  unfolding new_largest_def by (simp only: Insert.simps Let_def if_P if_True)

lemma Insert_node:
  "cs \<noteq> [] \<Longrightarrow> Insert sha1 (k, v) (MerkleTree mn mx h pos cs d lk) =
     (case child_index mn mx pos k of
        Inl e \<Rightarrow> (Some e, MerkleTree mn mx h pos cs d (new_largest lk k))
      | Inr i \<Rightarrow>
          if i < length cs then
            (case Insert sha1 (k, v) (cs ! i) of
               (Some e, c) \<Rightarrow> (Some e, MerkleTree mn mx h pos (cs[i := c]) d (new_largest lk k))
             | (None, c) \<Rightarrow> (None, Rehash sha1 (MerkleTree mn mx h pos (cs[i := c]) d (new_largest lk k))))
          else (Some OutOfRange, MerkleTree mn mx h pos cs d (new_largest lk k)))"
  unfolding new_largest_def by (simp only: Insert.simps Let_def ChildNum_eq if_not_P if_False)

lemma Insert_failure_hash:
  assumes "fst (Insert sha1 (k, v) t) \<noteq> None"
  shows "hash (snd (Insert sha1 (k, v) t)) = hash t"
proof (cases t)
  case (MerkleTree mn mx h pos cs d lk)
  show ?thesis
  proof (cases "cs = []")
    case True
    then show ?thesis
      using assms unfolding MerkleTree True Insert_leaf by (simp split: if_splits)
  next
    case False
    then show ?thesis
      using assms unfolding MerkleTree Insert_node [OF False]
      by (simp split: sum.splits if_splits prod.splits option.splits)
  qed
qed

lemma hashes_current_Rehash:
  "list_all (hashes_current sha1) cs \<Longrightarrow> hashes_current sha1 (Rehash sha1 (MerkleTree mn mx h pos cs d lk))"
  by (simp add: Rehash_eq)

lemma hashes_current_Rehash_node:
  "list_all (hashes_current sha1) (child_nodes t) \<Longrightarrow> hashes_current sha1 (Rehash sha1 t)"
  by (cases t) (simp add: Rehash_eq)

lemma hashes_current_cache:
  "hashes_current sha1 (MerkleTree mn mx h pos cs d lk) \<Longrightarrow> hashes_current sha1 (MerkleTree mn mx h pos cs d lk')"
  by (simp add: Rehash_eq)

lemma create_loop_current:
  "list_all (hashes_current sha1) (fst (create_loop sha1 pos step inds last_key d))"
  by (induction inds arbitrary: last_key d) (simp_all add: Let_def Rehash_eq case_prod_beta)

lemma CreateChildren_current:
  "list_all (hashes_current sha1) (child_nodes (CreateChildren sha1 (MerkleTree mn mx h pos [] d lk)))"
  using create_loop_current [of sha1 pos "key_minus mx mn div num_children" "[0..<num_children]" mn d]
  by (simp add: CreateChildren_def Let_def case_prod_beta)

lemma list_all_update:
  "list_all P xs \<Longrightarrow> P y \<Longrightarrow> list_all P (xs[i := y])"
  by (induction xs arbitrary: i) (auto split: nat.splits)

lemma node_hash_update:
  assumes "i < length cs" "hash c = hash (cs ! i)"
  shows "node_hash sha1 (cs[i := c]) d = node_hash sha1 cs d"
proof -
  have "map (\<lambda>node. IntToHexStr (hash node)) (cs[i := c]) = map (\<lambda>node. IntToHexStr (hash node)) cs"
    using assms by (intro map_update_same) simp_all
  then show ?thesis
    by (simp add: node_hash_def)
qed

lemma concat_singletons: "concat (map (\<lambda>i. [c]) xs) = replicate (length xs) c"
  by (induction xs) simp_all

lemma hashes_current_new: "hashes_current sha1 (MerkleTree_new sha1 :: 'v MerkleTree)"
proof -
  let ?cs = "map (child_of sha1 0 [] (child_width []) ([] :: (nat \<times> 'v) list)) [0..<num_children]"
  have h: "hash (child_of sha1 0 [] (child_width []) ([] :: (nat \<times> 'v) list) i) = 0" for i
    by (simp add: child_of_eq child_data_def node_hash_def)
  have "map (\<lambda>node. IntToHexStr (hash node)) ?cs = map (\<lambda>i. [CHR ''0'']) [0..<num_children]"
    unfolding map_map comp_def h by (simp add: hex_digit_def)
  then have "concat (map (\<lambda>node. IntToHexStr (hash node)) ?cs) = replicate num_children CHR ''0''"
    by (simp only: concat_singletons length_upt diff_zero)
  then have "node_hash sha1 ?cs [] = 0"
    by (simp add: node_hash_def)
  moreover have "list_all (hashes_current sha1) ?cs"
    unfolding list_all_iff
  proof
    fix c assume "c \<in> set ?cs"
    then obtain i where "c = child_of sha1 0 [] (child_width []) [] i" by auto
    then show "hashes_current sha1 c"
      by (simp add: child_of_eq Rehash_eq)
  qed
  ultimately show ?thesis
    unfolding MerkleTree_new_eq hashes_current.simps Rehash_eq by simp
qed

lemma Insert_current:
  assumes "hashes_current sha1 t"
  shows "hashes_current sha1 (snd (Insert sha1 (k, v) t))"
  using assms
proof (induction t)
  case (MerkleTree mn mx h pos cs d lk)
  let ?lk = "new_largest lk k"
  have cur: "list_all (hashes_current sha1) cs" and h: "h = node_hash sha1 cs d"
    using MerkleTree.prems by (simp_all add: Rehash_eq)
  have same: "hashes_current sha1 (MerkleTree mn mx h pos cs d ?lk)"
    using MerkleTree.prems by (rule hashes_current_cache)
  show ?case
  proof (cases "cs = []")
    case True
    have split: "hashes_current sha1 (Rehash sha1 (ToInternal sha1 (MerkleTree mn mx h pos [] (map_insert (k, v) d) ?lk)))"
      unfolding ToInternal_def by (rule hashes_current_Rehash_node) (rule CreateChildren_current)
    have leaf: "hashes_current sha1 (Rehash sha1 (MerkleTree mn mx h pos [] (map_insert (k, v) d) ?lk))"
      by (rule hashes_current_Rehash) simp
    show ?thesis
      unfolding True Insert_leaf
      using True same split leaf by (simp del: hashes_current.simps)
  next
    case False
    show ?thesis
    proof (cases "child_index mn mx pos k")
      case (Inl e)
      then show ?thesis
        unfolding Insert_node [OF False] using same by (simp del: hashes_current.simps)
    next
      case (Inr i)
      show ?thesis
      proof (cases "i < length cs")
        case out: False
        then show ?thesis
          unfolding Insert_node [OF False] using Inr same by (simp del: hashes_current.simps)
      next
        case True
        obtain eo c' where ins: "Insert sha1 (k, v) (cs ! i) = (eo, c')"
          by (cases "Insert sha1 (k, v) (cs ! i)")
        have "cs ! i \<in> set cs" using True by simp
        moreover have "hashes_current sha1 (cs ! i)" using cur True by (simp add: list_all_length)
        ultimately have "hashes_current sha1 (snd (Insert sha1 (k, v) (cs ! i)))"
          by (rule MerkleTree.IH)
        then have c: "hashes_current sha1 c'" using ins by simp
        have cur': "list_all (hashes_current sha1) (cs[i := c'])"
          using cur c by (rule list_all_update)
        show ?thesis
        proof (cases eo)
          case None
          have "hashes_current sha1 (Rehash sha1 (MerkleTree mn mx h pos (cs[i := c']) d ?lk))"
            using cur' by (rule hashes_current_Rehash)
          then show ?thesis
            unfolding Insert_node [OF False] using Inr True ins None
            by (simp del: hashes_current.simps)
        next
          case (Some e)
          have "hash c' = hash (cs ! i)"
            using Insert_failure_hash [of sha1 k v "cs ! i"] ins Some by simp
          then have "node_hash sha1 (cs[i := c']) d = h"
            using True h by (simp add: node_hash_update)
          then have "hashes_current sha1 (MerkleTree mn mx h pos (cs[i := c']) d ?lk)"
            using cur' by (simp add: Rehash_eq)
          then show ?thesis
            unfolding Insert_node [OF False] using Inr True ins Some
            by (simp del: hashes_current.simps)
        qed
      qed
    qed
  qed
qed


lemma Update_current:
  assumes "hashes_current sha1 t" "Update sha1 (k, v) t = Inr t'"
  shows "hashes_current sha1 t'"
  using assms
proof (induction t arbitrary: t')
  case (MerkleTree mn mx h pos cs d lk)
  show ?case
  proof (cases "cs = []")
    case True
    then show ?thesis
      using MerkleTree.prems by (auto simp: Rehash_eq split: if_splits)
  next
    case internal: False
    then obtain i c' where i: "child_index mn mx pos k = Inr i" "i < length cs"
      and c': "Update sha1 (k, v) (cs ! i) = Inr c'"
      and t': "t' = Rehash sha1 (MerkleTree mn mx h pos (cs[i := c']) d lk)"
      using MerkleTree.prems(2)
      by (auto simp: ChildNum_eq split: sum.splits if_splits)
    have cur: "list_all (hashes_current sha1) cs" using MerkleTree.prems(1) by simp
    have mem: "cs ! i \<in> set cs" using i(2) by simp
    have "hashes_current sha1 (cs ! i)" using cur i(2) by (simp add: list_all_length)
    then have "hashes_current sha1 c'"
      using MerkleTree.IH [OF mem _ c'] by simp
    then have "list_all (hashes_current sha1) (cs[i := c'])"
      using cur by (intro list_all_update)
    then show ?thesis
      unfolding t' by (rule hashes_current_Rehash)
  qed
qed

lemma Delete_current:
  assumes "hashes_current sha1 t" "Delete sha1 k t = Inr t'"
  shows "hashes_current sha1 t'"
  using assms
proof (induction t arbitrary: t')
  case (MerkleTree mn mx h pos cs d lk)
  show ?case
  proof (cases "cs = []")
    case True
    then show ?thesis
      using MerkleTree.prems by (auto simp: Rehash_eq split: if_splits)
  next
    case internal: False
    then obtain i c' lk' where i: "child_index mn mx pos k = Inr i" "i < length cs"
      and c': "Delete sha1 k (cs ! i) = Inr c'"
      and t': "t' = MerkleTree mn mx (node_hash sha1 (cs[i := c']) d) pos (cs[i := c']) d lk'"
      using MerkleTree.prems(2)
      by (auto simp: ChildNum_eq Rehash_eq split: sum.splits if_splits)
    have cur: "list_all (hashes_current sha1) cs" using MerkleTree.prems(1) by simp
    have mem: "cs ! i \<in> set cs" using i(2) by simp
    have "hashes_current sha1 (cs ! i)" using cur i(2) by (simp add: list_all_length)
    then have "hashes_current sha1 c'"
      using MerkleTree.IH [OF mem _ c'] by simp
    then have "list_all (hashes_current sha1) (cs[i := c'])"
      using cur by (intro list_all_update)
    then show ?thesis
      unfolding t' by (simp add: Rehash_eq)
  qed
qed

text \<open>
  Inserting the same key, with any two values, into two trees with the same keys
  has the same outcome and leaves trees with the same keys.
\<close>

lemma takeWhile_keys:
  fixes d1 :: "(nat \<times> 'v) list" and d2 :: "(nat \<times> 'w) list"
  assumes "map fst d1 = map fst d2"
  shows "map fst (takeWhile (\<lambda>(key, _). P key) d1) = map fst (takeWhile (\<lambda>(key, _). P key) d2)"
    and "map fst (dropWhile (\<lambda>(key, _). P key) d1) = map fst (dropWhile (\<lambda>(key, _). P key) d2)"
proof -
  have "takeWhile P (map fst d1) = takeWhile P (map fst d2)"
    "dropWhile P (map fst d1) = dropWhile P (map fst d2)"
    using assms by simp_all
  then show "map fst (takeWhile (\<lambda>(key, _). P key) d1) = map fst (takeWhile (\<lambda>(key, _). P key) d2)"
    and "map fst (dropWhile (\<lambda>(key, _). P key) d1) = map fst (dropWhile (\<lambda>(key, _). P key) d2)"
    by (simp_all add: takeWhile_map dropWhile_map comp_def case_prod_unfold)
qed

lemma create_loop_same_keys:
  fixes d1 :: "(nat \<times> 'v) list" and d2 :: "(nat \<times> 'w) list"
  assumes "map fst d1 = map fst d2"
  shows "list_all2 same_keys (fst (create_loop sha1 pos step inds last_key d1))
           (fst (create_loop sha1 pos step inds last_key d2))
       \<and> map fst (snd (create_loop sha1 pos step inds last_key d1))
         = map fst (snd (create_loop sha1 pos step inds last_key d2))"
  using assms
proof (induction inds arbitrary: last_key d1 d2)
  case Nil
  then show ?case by simp
next
  case (Cons i rest)
  let ?ub = "(last_key + step) mod 2 ^ 256"
  let ?P = "\<lambda>key. InBetween key last_key (uint256 (int ?ub - 1)) True"
  have t: "map fst (takeWhile (\<lambda>(key, _). ?P key) d1) = map fst (takeWhile (\<lambda>(key, _). ?P key) d2)"
    and dr: "map fst (dropWhile (\<lambda>(key, _). ?P key) d1) = map fst (dropWhile (\<lambda>(key, _). ?P key) d2)"
    using takeWhile_keys [OF Cons.prems, of ?P] by simp_all
  show ?case
    using Cons.IH [OF dr, of ?ub] t
    by (simp add: Let_def case_prod_beta Rehash_eq)
qed

lemma map_insert_keys:
  fixes d1 :: "(nat \<times> 'v) list" and d2 :: "(nat \<times> 'w) list"
  assumes "map fst d1 = map fst d2"
  shows "map fst (map_insert (k, v) d1) = map fst (map_insert (k, w) d2)"
  using assms
proof (induction d1 arbitrary: d2)
  case Nil
  then show ?case by simp
next
  case (Cons e d1)
  obtain e' d2' where d2: "d2 = e' # d2'" using Cons.prems by (cases d2) auto
  obtain k1 v1 where e: "e = (k1, v1)" by (cases e)
  obtain k2 v2 where e': "e' = (k2, v2)" by (cases e')
  have "k1 = k2" "map fst d1 = map fst d2'" using Cons.prems d2 e e' by simp_all
  then show ?case
    using Cons.IH [of d2'] d2 e e' by simp
qed

lemma map_contains_keys:
  fixes d1 :: "(nat \<times> 'v) list" and d2 :: "(nat \<times> 'w) list"
  assumes "map fst d1 = map fst d2"
  shows "map_contains k d1 = map_contains k d2"
proof -
  have "map_contains k d = (k \<in> set (map fst d))" for d :: "(nat \<times> 'u) list"
    by (simp add: map_contains_def map_of_eq_None_iff)
  then have "map_contains k d1 = (k \<in> set (map fst d1))" "map_contains k d2 = (k \<in> set (map fst d2))"
    by blast+
  then show ?thesis unfolding assms by (rule trans [OF _ sym])
qed

lemma Insert_same_keys:
  fixes t1 :: "'v MerkleTree" and t2 :: "'w MerkleTree"
  assumes "same_keys t1 t2"
  shows "fst (Insert sha1 (k, v) t1) = fst (Insert sha1 (k, w) t2)
       \<and> same_keys (snd (Insert sha1 (k, v) t1)) (snd (Insert sha1 (k, w) t2))"
  using assms
proof (induction t1 arbitrary: t2)
  case (MerkleTree mn mx h pos cs d lk)
  obtain h' cs' d' lk' where t2: "t2 = MerkleTree mn mx h' pos cs' d' lk'"
    using MerkleTree.prems by (cases t2) simp
  have keys: "map fst d = map fst d'" and rel: "list_all2 same_keys cs cs'"
    using MerkleTree.prems t2 by simp_all
  have len: "length cs = length cs'" using rel by (rule list_all2_lengthD)
  show ?case
  proof (cases "cs = []")
    case True
    then have True': "cs' = []" using len by simp
    let ?d1 = "map_insert (k, v) d" and ?d2 = "map_insert (k, w) d'"
    have keys': "map fst ?d1 = map fst ?d2" using keys by (rule map_insert_keys)
    then have "length (map fst ?d1) = length (map fst ?d2)" by simp
    then have len': "length ?d1 = length ?d2" by simp
    have split: "same_keys
        (Rehash sha1 (ToInternal sha1 (MerkleTree mn mx h pos [] ?d1 (new_largest lk k))))
        (Rehash sha1 (ToInternal sha1 (MerkleTree mn mx h' pos [] ?d2 (new_largest lk' k))))"
      using create_loop_same_keys [OF keys', of sha1 pos "key_minus mx mn div num_children" "[0..<num_children]" mn]
      by (simp add: ToInternal_def CreateChildren_def Let_def case_prod_beta Rehash_eq)
    show ?thesis
      unfolding t2 True True' Insert_leaf
      using map_contains_keys [OF keys, of k] keys keys' len' split
      by (simp add: Rehash_eq)
  next
    case False
    then have False': "cs' \<noteq> []" using len by auto
    show ?thesis
    proof (cases "child_index mn mx pos k")
      case (Inl e)
      then show ?thesis
        unfolding t2 Insert_node [OF False] Insert_node [OF False']
        using keys rel by simp
    next
      case (Inr i)
      show ?thesis
      proof (cases "i < length cs")
        case out: False
        then show ?thesis
          unfolding t2 Insert_node [OF False] Insert_node [OF False']
          using Inr keys rel len by simp
      next
        case True
        obtain e1 c1 where ins1: "Insert sha1 (k, v) (cs ! i) = (e1, c1)"
          by (cases "Insert sha1 (k, v) (cs ! i)")
        obtain e2 c2 where ins2: "Insert sha1 (k, w) (cs' ! i) = (e2, c2)"
          by (cases "Insert sha1 (k, w) (cs' ! i)")
        have mem: "cs ! i \<in> set cs" using True by simp
        have "same_keys (cs ! i) (cs' ! i)" using rel True by (rule list_all2_nthD)
        then have "e1 = e2" "same_keys c1 c2"
          using MerkleTree.IH [OF mem, of "cs' ! i"] ins1 ins2 by simp_all
        moreover have "list_all2 same_keys (cs[i := c1]) (cs'[i := c2])"
          using rel \<open>same_keys c1 c2\<close> by (rule list_all2_update_cong)
        ultimately show ?thesis
          unfolding t2 Insert_node [OF False] Insert_node [OF False']
          using Inr True len ins1 ins2 keys
          by (cases e2) (simp_all add: Rehash_eq)
      qed
    qed
  qed
qed

lemma same_keys_refl: "same_keys t t"
proof (induction t)
  case (MerkleTree mn mx h pos cs d lk)
  then have "list_all2 same_keys cs cs"
    by (simp add: list_all2_conv_all_nth)
  then show ?case by simp
qed

lemma same_keys_new: "same_keys (MerkleTree_new sha1 :: 'v MerkleTree) (MerkleTree_new sha1 :: 'w MerkleTree)"
  using create_loop_same_keys [of "[] :: (nat \<times> 'v) list" "[] :: (nat \<times> 'w) list" sha1 "[]"
      "key_minus keys_in_ring 0 div num_children" "[0..<num_children]" 0]
  by (simp add: MerkleTree_new_def CreateChildren_def Let_def case_prod_beta)

text \<open>
  Two trees built from the constructor by inserting the same keys in the same order,
  with any values, carry the same hashes.
\<close>

lemma inserts_same_hashes:
  fixes kvs :: "(nat \<times> 'v) list" and kws :: "(nat \<times> 'w) list"
  assumes "map fst kvs = map fst kws"
  shows "same_hashes (fold (\<lambda>kv t. snd (Insert sha1 kv t)) kvs (MerkleTree_new sha1))
           (fold (\<lambda>kw t. snd (Insert sha1 kw t)) kws (MerkleTree_new sha1))"
proof -
  have "hashes_current sha1 (fold (\<lambda>kv t. snd (Insert sha1 kv t)) kvs t1)
      \<and> hashes_current sha1 (fold (\<lambda>kw t. snd (Insert sha1 kw t)) kws t2)
      \<and> same_keys (fold (\<lambda>kv t. snd (Insert sha1 kv t)) kvs t1)
          (fold (\<lambda>kw t. snd (Insert sha1 kw t)) kws t2)"
    if "hashes_current sha1 t1" "hashes_current sha1 t2" "same_keys t1 t2"
    for t1 :: "'v MerkleTree" and t2 :: "'w MerkleTree"
    using assms that
  proof (induction kvs arbitrary: kws t1 t2)
    case Nil
    then show ?case by simp
  next
    case (Cons kv kvs)
    obtain kw kws' where kws: "kws = kw # kws'" using Cons.prems(1) by (cases kws) auto
    obtain k v where kv: "kv = (k, v)" by (cases kv)
    obtain k' w where kw: "kw = (k', w)" by (cases kw)
    have k: "k' = k" and rest: "map fst kvs = map fst kws'"
      using Cons.prems(1) kws kv kw by simp_all
    have "hashes_current sha1 (snd (Insert sha1 (k, v) t1))"
      "hashes_current sha1 (snd (Insert sha1 (k, w) t2))"
      using Cons.prems(2,3) by (simp_all add: Insert_current)
    moreover have "same_keys (snd (Insert sha1 (k, v) t1)) (snd (Insert sha1 (k, w) t2))"
      using Insert_same_keys [OF Cons.prems(4)] by simp
    ultimately show ?case
      using Cons.IH [OF rest] kws kv kw k by simp
  qed
  from this [OF hashes_current_new hashes_current_new same_keys_new]
  show ?thesis
    using same_keys_same_hashes by blast
qed

text \<open>
  Claim C9. The hash of a node is computed from the stored keys alone: \<open>Rehash\<close> gives
  an empty leaf the key \<open>0\<close>, a leaf with entries the hash of the concatenation of
  its keys, and an internal node the hash of the concatenation of its children's
  hashes (or \<open>0\<close> when that concatenation is \<open>num_children_\<close> zeros). So two trees with
  current hashes that hold the same keys at the same positions have equal hashes at
  every node, whatever the values stored under the keys: comparing hashes cannot tell
  them apart.
\<close>

theorem hash_ignores_values:
  fixes t1 :: "'v MerkleTree" and t2 :: "'w MerkleTree"
  assumes "hashes_current sha1 t1" "hashes_current sha1 t2" "same_keys t1 t2"
  shows "hash t1 = hash t2 \<and> same_hashes t1 t2"
  using same_keys_same_hashes [OF assms] same_hashes_hash by blast

theorem hash_ignores_values_witness:
  "(let sha = (\<lambda>s. Suc (length s));
        t1 = snd (Insert sha (5, ''hello'') (MerkleTree_new sha));
        t2 = snd (Insert sha (5, ''world'') (MerkleTree_new sha))
    in hashes_current sha t1 \<and> hashes_current sha t2 \<and> same_keys t1 t2
     \<and> Lookup t1 5 = Inr ''hello'' \<and> Lookup t2 5 = Inr ''world''
     \<and> hash t1 = hash t2 \<and> same_hashes t1 t2)"
proof -
  let ?sha = "\<lambda>s :: string. Suc (length s)"
  let ?t = "MerkleTree_new ?sha :: string MerkleTree"
  let ?t1 = "snd (Insert ?sha (5, ''hello'') ?t)"
  let ?t2 = "snd (Insert ?sha (5, ''world'') ?t)"
  have cur: "hashes_current ?sha ?t1" "hashes_current ?sha ?t2"
    by (rule Insert_current [OF hashes_current_new])+
  have keys: "same_keys ?t1 ?t2"
    using Insert_same_keys [OF same_keys_refl, of ?sha 5 "''hello''" ?t "''world''"] by simp
  have wf: "well_formed ?t" by (rule well_formed_new)
  have lo: "min_key ?t \<le> 5" and hi: "5 < max_key ?t"
    by (simp_all add: MerkleTree_new_eq keys_in_ring_def)
  have idx: "child_index 0 keys_in_ring [] 5 = Inr 0"
    by (simp add: child_index_def ChildNum_def GetDepth_def keys_in_ring_def num_children_def
        drop_bit_eq_div and_seven)
  have absent: "Contains ?t 5 = Inr False"
    by (simp add: MerkleTree_new_eq ChildNum_eq idx num_children_def child_of_eq child_data_def
        map_contains_def upt_rec)
  have ok: "fst (Insert ?sha (5, v) ?t) = None" for v
    using absent by (rule Insert_absent)
  have look: "Lookup ?t1 5 = Inr ''hello''" "Lookup ?t2 5 = Inr ''world''"
    using Insert_well_formed [OF wf lo hi, of ?sha "''hello''" ?t1]
      Insert_well_formed [OF wf lo hi, of ?sha "''world''" ?t2] ok
    by (simp_all add: prod_eq_iff)
  show ?thesis
    unfolding Let_def
    using hash_ignores_values [OF cur keys] cur keys look by simp
qed


subsection \<open>A failed insertion\<close>







fun stored :: "'v MerkleTree \<Rightarrow> (nat \<times> 'v) list" where
  "stored (MerkleTree mn mx h pos cs d lk) = (if cs = [] then d else concat (map stored cs))"

definition cache_covers :: "'v MerkleTree \<Rightarrow> bool" where
  "cache_covers t =
     list_all (\<lambda>(k, _). case largest_key t of None \<Rightarrow> False | Some l \<Rightarrow> k \<le> l) (stored t)"














lemma cache_covers_iff:
  "cache_covers t = (\<forall>k \<in> fst ` set (stored t). \<exists>l. largest_key t = Some l \<and> k \<le> l)"
  by (auto simp: cache_covers_def list_all_iff split: option.splits)






lemma stored_update:
  assumes "i < length cs"
  shows "set (concat (map stored (cs[i := c]))) \<subseteq> set (stored c) \<union> set (concat (map stored cs))"
  using set_update_subset_insert [of cs i c] by auto





lemma Update_covers:
  assumes "Update sha1 (k, v) t = Inr t'"
  shows "largest_key t' = largest_key t" and "fst ` set (stored t') \<subseteq> fst ` set (stored t)"
proof -
  show "largest_key t' = largest_key t"
    using assms by (cases t) (auto simp: Rehash_eq split: sum.splits if_splits)
  show "fst ` set (stored t') \<subseteq> fst ` set (stored t)"
    using assms
  proof (induction t arbitrary: t')
    case (MerkleTree mn mx h pos cs d lk)
    show ?case
    proof (cases "cs = []")
      case True
      have "map fst (map_assign k v d) = map fst d"
        by (induction d) (auto simp: map_assign_def)
      then have "fst ` set (map_assign k v d) = fst ` set d"
        by (metis set_map)
      moreover have "t' = MerkleTree mn mx (node_hash sha1 [] (map_assign k v d)) pos [] (map_assign k v d) lk"
        using MerkleTree.prems True by (auto simp: Rehash_eq split: if_splits)
      ultimately show ?thesis
        using True by simp
    next
      case internal: False
      then obtain i c' where i: "child_index mn mx pos k = Inr i" "i < length cs"
        and c': "Update sha1 (k, v) (cs ! i) = Inr c'"
        and t': "t' = MerkleTree mn mx (node_hash sha1 (cs[i := c']) d) pos (cs[i := c']) d lk"
        using MerkleTree.prems
        by (auto simp: ChildNum_eq Rehash_eq split: sum.splits if_splits)
      have mem: "cs ! i \<in> set cs" using i(2) by simp
      have sub: "fst ` set (stored c') \<subseteq> fst ` set (stored (cs ! i))"
        using MerkleTree.IH [OF mem c'] .
      have "set (stored (cs ! i)) \<subseteq> set (concat (map stored cs))"
        using mem by auto
      then have "fst ` set (concat (map stored (cs[i := c']))) \<subseteq> fst ` set (concat (map stored cs))"
        using stored_update [OF i(2), of c'] sub by blast
      moreover have "cs[i := c'] \<noteq> []" using internal by simp
      ultimately show ?thesis
        unfolding t' using internal by simp
    qed
  qed
qed

lemma Update_keeps_cover:
  assumes "cache_covers t" "Update sha1 (k, v) t = Inr t'"
  shows "cache_covers t'"
proof -
  have "\<exists>l. largest_key t' = Some l \<and> k' \<le> l" if "k' \<in> fst ` set (stored t')" for k'
  proof -
    have "k' \<in> fst ` set (stored t)"
      using that Update_covers(2) [OF assms(2)] by blast
    then show ?thesis
      using assms(1) unfolding cache_covers_iff Update_covers(1) [OF assms(2)] by blast
  qed
  then show ?thesis
    unfolding cache_covers_iff by blast
qed













end
